theory Spec2Isabelle
  imports Complex_Main "HOL-Library.Multiset"
begin

section \<open>Data model\<close>

text \<open>
  The models of \<^verbatim>\<open>src/api/index.py\<close>. Python floats are idealised as real numbers,
  Python's unbounded integers are \<open>int\<close>, and list positions produced by \<^verbatim>\<open>range\<close>
  are \<open>nat\<close>.
\<close>

record Point =
  point_x :: real
  point_y :: real

record Obstacle =
  obs_x :: real
  obs_y :: real
  radius :: real

record EvolveRequest =
  req_cities :: "Point list"
  req_obstacles :: "Obstacle list"
  req_population :: "int list list"
  req_pop_size :: int
  req_mutation_rate :: real
  req_generations_per_step :: int

record EvolveResponse =
  resp_population :: "int list list"
  resp_best_route :: "int list"
  resp_best_distance :: real
  resp_generation :: int

datatype py_error = IndexError

text \<open>
  Reading \<^verbatim>\<open>xs[i]\<close> for a Python integer \<open>i\<close>: positions from \<open>-len\<close> to \<open>-1\<close> are
  read from the end of the list, every other position outside the list raises IndexError.
\<close>

definition py_get :: "'a list \<Rightarrow> int \<Rightarrow> py_error + 'a" where
  "py_get xs i =
     (if 0 \<le> i \<and> i < int (length xs) then Inr (xs ! nat i)
      else if - int (length xs) \<le> i \<and> i < 0 then Inr (xs ! nat (int (length xs) + i))
      else Inl IndexError)"

section \<open>Geometry\<close>

definition calculate_distance :: "Point \<Rightarrow> Point \<Rightarrow> real" where
  "calculate_distance city1 city2 =
     sqrt ((point_x city1 - point_x city2)\<^sup>2 + (point_y city1 - point_y city2)\<^sup>2)"

definition line_intersects_circle :: "Point \<Rightarrow> Point \<Rightarrow> Obstacle \<Rightarrow> bool" where
  "line_intersects_circle p1 p2 circle =
     (let dx = point_x p2 - point_x p1;
          dy = point_y p2 - point_y p1
      in if dx = 0 \<and> dy = 0 then False
         else
           let t = ((obs_x circle - point_x p1) * dx + (obs_y circle - point_y p1) * dy)
                     / (dx * dx + dy * dy);
               t = max 0 (min 1 t);
               closest_x = point_x p1 + t * dx;
               closest_y = point_y p1 + t * dy;
               dist_sq = (closest_x - obs_x circle)\<^sup>2 + (closest_y - obs_y circle)\<^sup>2
           in dist_sq < (radius circle)\<^sup>2)"

section \<open>Fitness\<close>

text \<open>The inner loop of \<^verbatim>\<open>get_route_distance\<close>: one pass over the obstacles for one edge.\<close>

fun obstacle_loop :: "Point \<Rightarrow> Point \<Rightarrow> Obstacle list \<Rightarrow> int \<Rightarrow> int" where
  "obstacle_loop from_city to_city [] penalty = penalty"
| "obstacle_loop from_city to_city (obs # rest) penalty =
     obstacle_loop from_city to_city rest
       (if line_intersects_circle from_city to_city obs then penalty + 10000 else penalty)"

text \<open>
  The outer loop over \<^verbatim>\<open>range(len(route_indices))\<close>, carrying \<^verbatim>\<open>dist\<close> (here \<open>dist_sum\<close>) and
  \<^verbatim>\<open>penalty\<close>. The positions \<open>i\<close> and \<open>(i + 1) mod len\<close> are always inside the route;
  the lookups in \<^verbatim>\<open>cities\<close> may raise.
\<close>

fun route_loop ::
  "int list \<Rightarrow> Point list \<Rightarrow> Obstacle list \<Rightarrow> nat list \<Rightarrow> real \<times> int \<Rightarrow> py_error + real \<times> int"
where
  "route_loop route_indices cities obstacles [] (dist_sum, penalty) = Inr (dist_sum, penalty)"
| "route_loop route_indices cities obstacles (i # rest) (dist_sum, penalty) =
     (case py_get cities (route_indices ! i) of
        Inl e \<Rightarrow> Inl e
      | Inr from_city \<Rightarrow>
          (case py_get cities (route_indices ! ((i + 1) mod length route_indices)) of
             Inl e \<Rightarrow> Inl e
           | Inr to_city \<Rightarrow>
               route_loop route_indices cities obstacles rest
                 (dist_sum + calculate_distance from_city to_city,
                  obstacle_loop from_city to_city obstacles penalty)))"

definition get_route_distance ::
  "int list \<Rightarrow> Point list \<Rightarrow> Obstacle list \<Rightarrow> py_error + real"
where
  "get_route_distance route_indices cities obstacles =
     (case route_loop route_indices cities obstacles [0..<length route_indices] (0, 0) of
        Inl e \<Rightarrow> Inl e
      | Inr (dist_sum, penalty) \<Rightarrow> Inr (dist_sum + real_of_int penalty))"

text \<open>
  The cost of a route as the specification words it: the length of the closed tour plus
  10000 for every pair of an edge and an obstacle that intersect.
\<close>

definition edge_from :: "int list \<Rightarrow> Point list \<Rightarrow> nat \<Rightarrow> Point" where
  "edge_from route cities i = cities ! nat (route ! i)"

definition edge_to :: "int list \<Rightarrow> Point list \<Rightarrow> nat \<Rightarrow> Point" where
  "edge_to route cities i = cities ! nat (route ! ((i + 1) mod length route))"

definition route_cost_spec :: "int list \<Rightarrow> Point list \<Rightarrow> Obstacle list \<Rightarrow> real" where
  "route_cost_spec route cities obstacles =
     (\<Sum>i<length route. calculate_distance (edge_from route cities i) (edge_to route cities i))
     + 10000 * real (length
         (filter (\<lambda>(i, obs). line_intersects_circle (edge_from route cities i) (edge_to route cities i) obs)
            (List.product [0..<length route] obstacles)))"

section \<open>The random source\<close>

text \<open>
  \<^verbatim>\<open>random.random()\<close> returns a float in the half-open interval from 0 to 1. The
  global generator is modelled as the sequence of its future outputs; every draw takes the
  head of the sequence and leaves the rest.
\<close>

typedef unit_interval = "{u::real. 0 \<le> u \<and> u < 1}"
  by (rule exI [of _ 0]) simp

setup_lifting type_definition_unit_interval

lift_definition to_unit :: "real \<Rightarrow> unit_interval" is
  "\<lambda>r. if 0 \<le> r \<and> r < 1 then r else 0"
  by simp

type_synonym rng = "nat \<Rightarrow> unit_interval"

definition rng_of_list :: "real list \<Rightarrow> rng" where
  "rng_of_list us = (\<lambda>k. to_unit (if k < length us then us ! k else 0))"

definition random_random :: "rng \<Rightarrow> real \<times> rng" where
  "random_random g = (Rep_unit_interval (g 0), \<lambda>k. g (Suc k))"

text \<open>
  \<^verbatim>\<open>int(random.random() * n)\<close>: the product is not negative, so the truncation of
  \<^verbatim>\<open>int\<close> is the floor.
\<close>

definition random_index :: "nat \<Rightarrow> rng \<Rightarrow> nat \<times> rng" where
  "random_index n g =
     (let (u, g') = random_random g in (nat \<lfloor>u * real n\<rfloor>, g'))"

text \<open>
  The standard library's \<^verbatim>\<open>_randbelow(n)\<close>, used by \<^verbatim>\<open>random.shuffle\<close> and
  \<^verbatim>\<open>random.choice\<close>, returns an integer from 0 to \<open>n - 1\<close>. It is modelled by scaling
  one draw of the source; every integer of that range is the image of some draw.
\<close>

definition randbelow :: "nat \<Rightarrow> rng \<Rightarrow> nat \<times> rng" where
  "randbelow n g = random_index n g"

text \<open>
  \<^verbatim>\<open>random.shuffle(x)\<close> of the standard library:
  \<^verbatim>\<open>for i in reversed(range(1, len(x))): j = randbelow(i + 1); x[i], x[j] = x[j], x[i]\<close>.
\<close>

fun shuffle_loop :: "nat list \<Rightarrow> 'a list \<times> rng \<Rightarrow> 'a list \<times> rng" where
  "shuffle_loop [] (x, g) = (x, g)"
| "shuffle_loop (i # rest) (x, g) =
     (let (j, g') = randbelow (i + 1) g
      in shuffle_loop rest (x[i := x ! j, j := x ! i], g'))"

definition shuffle :: "'a list \<Rightarrow> rng \<Rightarrow> 'a list \<times> rng" where
  "shuffle x g = shuffle_loop (rev [1..<length x]) (x, g)"

text \<open>
  \<^verbatim>\<open>random.choice(seq)\<close> raises IndexError on an empty sequence and returns
  \<^verbatim>\<open>seq[randbelow(len(seq))]\<close> otherwise. \<open>choice_index\<close> is the position it reads.
\<close>

definition choice_index :: "'a list \<Rightarrow> rng \<Rightarrow> py_error + nat \<times> rng" where
  "choice_index seq g = (if seq = [] then Inl IndexError else Inr (randbelow (length seq) g))"

definition choice :: "'a list \<Rightarrow> rng \<Rightarrow> py_error + 'a \<times> rng" where
  "choice seq g =
     (case choice_index seq g of
        Inl e \<Rightarrow> Inl e
      | Inr (k, g') \<Rightarrow> Inr (seq ! k, g'))"

section \<open>Genetic operators\<close>

text \<open>
  \<^verbatim>\<open>create_initial_population\<close>: the one list \<^verbatim>\<open>indices\<close> is shuffled again and again
  in place, and a copy of it is appended after each shuffle.
\<close>

fun init_loop :: "nat \<Rightarrow> int list \<times> rng \<Rightarrow> int list list \<Rightarrow> int list list \<times> rng" where
  "init_loop 0 (indices, g) population = (population, g)"
| "init_loop (Suc k) (indices, g) population =
     (let (indices', g') = shuffle indices g
      in init_loop k (indices', g') (population @ [indices']))"

definition create_initial_population :: "int \<Rightarrow> nat \<Rightarrow> rng \<Rightarrow> int list list \<times> rng" where
  "create_initial_population pop_size n_cities g =
     init_loop (nat pop_size) (map int [0..<n_cities], g) []"

text \<open>
  \<^verbatim>\<open>breed\<close>. The child is a list of slots, \<open>None\<close> for Python's \<^verbatim>\<open>None\<close>.
  First loop: \<^verbatim>\<open>for i in range(start, end): child[i] = parent1[i]\<close>.
\<close>

fun copy_loop :: "int list \<Rightarrow> nat list \<Rightarrow> int option list \<Rightarrow> py_error + int option list" where
  "copy_loop parent1 [] child = Inr child"
| "copy_loop parent1 (i # rest) child =
     (if i < length parent1 \<and> i < length child
      then copy_loop parent1 rest (child[i := Some (parent1 ! i)])
      else Inl IndexError)"

text \<open>
  \<^verbatim>\<open>while parent2[p2_index] in child: p2_index += 1\<close>. Reading \<^verbatim>\<open>parent2\<close> past its
  end raises IndexError, which also bounds the loop.
\<close>

function scan_parent2 :: "int list \<Rightarrow> int option list \<Rightarrow> nat \<Rightarrow> py_error + nat" where
  "scan_parent2 parent2 child p2_index =
     (if p2_index < length parent2
      then (if Some (parent2 ! p2_index) \<in> set child
            then scan_parent2 parent2 child (Suc p2_index)
            else Inr p2_index)
      else Inl IndexError)"
  by pat_completeness auto
termination
  by (relation "measure (\<lambda>(parent2, child, p2_index). length parent2 - p2_index)") auto

text \<open>
  Second loop: \<^verbatim>\<open>for i in range(len(child))\<close>, filling the slots that are still
  \<^verbatim>\<open>None\<close>; \<^verbatim>\<open>p2_index\<close> is kept from one slot to the next.
\<close>

fun fill_loop ::
  "int list \<Rightarrow> nat list \<Rightarrow> int option list \<times> nat \<Rightarrow> py_error + int option list \<times> nat"
where
  "fill_loop parent2 [] (child, p2_index) = Inr (child, p2_index)"
| "fill_loop parent2 (i # rest) (child, p2_index) =
     (if child ! i = None
      then (case scan_parent2 parent2 child p2_index of
              Inl e \<Rightarrow> Inl e
            | Inr p2_index' \<Rightarrow>
                fill_loop parent2 rest (child[i := Some (parent2 ! p2_index')], p2_index'))
      else fill_loop parent2 rest (child, p2_index))"

text \<open>\<^verbatim>\<open>breed\<close> after its two cut points are drawn and ordered.\<close>

definition breed_at :: "nat \<Rightarrow> nat \<Rightarrow> int list \<Rightarrow> int list \<Rightarrow> py_error + int option list" where
  "breed_at start end' parent1 parent2 =
     (case copy_loop parent1 [start..<end'] (replicate (length parent1) None) of
        Inl e \<Rightarrow> Inl e
      | Inr child \<Rightarrow>
          (case fill_loop parent2 [0..<length child] (child, 0) of
             Inl e \<Rightarrow> Inl e
           | Inr (child', p2_index) \<Rightarrow> Inr child'))"

text \<open>
  When the second loop ends without an error no slot is \<^verbatim>\<open>None\<close> any more
  (\<open>breed_at_Inr\<close> below), so the returned child is read with \<open>the\<close>.
\<close>

definition breed :: "int list \<Rightarrow> int list \<Rightarrow> rng \<Rightarrow> py_error + int list \<times> rng" where
  "breed parent1 parent2 g =
     (let (start, g1) = random_index (length parent1) g;
          (end', g2) = random_index (length parent1) g1;
          (start, end') = (if start > end' then (end', start) else (start, end'))
      in case breed_at start end' parent1 parent2 of
           Inl e \<Rightarrow> Inl e
         | Inr child \<Rightarrow> Inr (map the child, g2))"

text \<open>
  \<^verbatim>\<open>mutate\<close>. The swap \<^verbatim>\<open>route[i], route[swap_with] = route[swap_with], route[i]\<close>
  reads both values first and then stores at \<open>i\<close> and at \<open>swap_with\<close>, in this order.
  \<open>swap_with\<close> is below \<^verbatim>\<open>len(route)\<close> (\<open>random_index_less\<close> below).
\<close>

fun mutate_loop :: "real \<Rightarrow> nat list \<Rightarrow> 'a list \<times> rng \<Rightarrow> 'a list \<times> rng" where
  "mutate_loop mutation_rate [] (route, g) = (route, g)"
| "mutate_loop mutation_rate (i # rest) (route, g) =
     (let (u, g1) = random_random g
      in if u < mutation_rate
         then (let (swap_with, g2) = random_index (length route) g1
               in mutate_loop mutation_rate rest
                    (route[i := route ! swap_with, swap_with := route ! i], g2))
         else mutate_loop mutation_rate rest (route, g1))"

definition mutate :: "'a list \<Rightarrow> real \<Rightarrow> rng \<Rightarrow> 'a list \<times> rng" where
  "mutate route mutation_rate g = mutate_loop mutation_rate [0..<length route] (route, g)"

section \<open>Generation step and driver\<close>

text \<open>The fitness loop of \<^verbatim>\<open>evolve\<close>, appending \<open>(score, individual)\<close> to \<^verbatim>\<open>scored_pop\<close>.\<close>

fun score_loop ::
  "int list list \<Rightarrow> Point list \<Rightarrow> Obstacle list \<Rightarrow> (real \<times> int list) list
    \<Rightarrow> py_error + (real \<times> int list) list"
where
  "score_loop [] cities obstacles scored_pop = Inr scored_pop"
| "score_loop (individual # rest) cities obstacles scored_pop =
     (case get_route_distance individual cities obstacles of
        Inl e \<Rightarrow> Inl e
      | Inr score \<Rightarrow> score_loop rest cities obstacles (scored_pop @ [(score, individual)]))"

text \<open>
  The body of the \<^verbatim>\<open>while\<close> loop: two parents chosen from \<^verbatim>\<open>scored_pop[:50]\<close>, bred,
  the child mutated. \<open>parent_indices\<close> gives the two positions that \<^verbatim>\<open>random.choice\<close>
  reads, which are positions of \<^verbatim>\<open>scored_pop\<close> as well.
\<close>

definition parent_indices ::
  "(real \<times> int list) list \<Rightarrow> rng \<Rightarrow> py_error + (nat \<times> nat) \<times> rng"
where
  "parent_indices scored_pop g =
     (case choice_index (take 50 scored_pop) g of
        Inl e \<Rightarrow> Inl e
      | Inr (k1, g1) \<Rightarrow>
          (case choice_index (take 50 scored_pop) g1 of
             Inl e \<Rightarrow> Inl e
           | Inr (k2, g2) \<Rightarrow> Inr ((k1, k2), g2)))"

definition make_child ::
  "(real \<times> int list) list \<Rightarrow> real \<Rightarrow> rng \<Rightarrow> py_error + int list \<times> rng"
where
  "make_child scored_pop mutation_rate g =
     (case choice (take 50 scored_pop) g of
        Inl e \<Rightarrow> Inl e
      | Inr (entry1, g1) \<Rightarrow>
          (case choice (take 50 scored_pop) g1 of
             Inl e \<Rightarrow> Inl e
           | Inr (entry2, g2) \<Rightarrow>
               (case breed (snd entry1) (snd entry2) g2 of
                  Inl e \<Rightarrow> Inl e
                | Inr (child, g3) \<Rightarrow> Inr (mutate child mutation_rate g3))))"

function breeding_loop ::
  "(real \<times> int list) list \<Rightarrow> real \<Rightarrow> int \<Rightarrow> int list list \<Rightarrow> rng
    \<Rightarrow> py_error + int list list \<times> rng"
where
  "breeding_loop scored_pop mutation_rate pop_size new_pop g =
     (if int (length new_pop) < pop_size
      then (case make_child scored_pop mutation_rate g of
              Inl e \<Rightarrow> Inl e
            | Inr (child, g') \<Rightarrow>
                breeding_loop scored_pop mutation_rate pop_size (new_pop @ [child]) g')
      else Inr (new_pop, g))"
  by pat_completeness auto
termination
  by (relation "measure (\<lambda>(scored_pop, mutation_rate, pop_size, new_pop, g).
        nat (pop_size - int (length new_pop)))") auto

text \<open>
  One pass of the \<^verbatim>\<open>for\<close> loop of \<^verbatim>\<open>evolve\<close>. \<^verbatim>\<open>list.sort\<close> is stable, as the
  insertion sort \<open>sort_key\<close> is.
\<close>

definition generation_step ::
  "Point list \<Rightarrow> Obstacle list \<Rightarrow> real \<Rightarrow> int \<Rightarrow> int list list \<Rightarrow> rng
    \<Rightarrow> py_error + int list list \<times> rng"
where
  "generation_step cities obstacles mutation_rate pop_size current_pop g =
     (case score_loop current_pop cities obstacles [] of
        Inl e \<Rightarrow> Inl e
      | Inr scored \<Rightarrow>
          (let scored_pop = sort_key fst scored;
               new_pop = map snd (take 10 scored_pop)
           in breeding_loop scored_pop mutation_rate pop_size new_pop g))"

fun generation_loop ::
  "nat \<Rightarrow> Point list \<Rightarrow> Obstacle list \<Rightarrow> real \<Rightarrow> int \<Rightarrow> int list list \<times> rng
    \<Rightarrow> py_error + int list list \<times> rng"
where
  "generation_loop 0 cities obstacles mutation_rate pop_size (current_pop, g) =
     Inr (current_pop, g)"
| "generation_loop (Suc k) cities obstacles mutation_rate pop_size (current_pop, g) =
     (case generation_step cities obstacles mutation_rate pop_size current_pop g of
        Inl e \<Rightarrow> Inl e
      | Inr (new_pop, g') \<Rightarrow>
          generation_loop k cities obstacles mutation_rate pop_size (new_pop, g'))"

definition empty_response :: EvolveResponse where
  "empty_response =
     \<lparr>resp_population = [], resp_best_route = [], resp_best_distance = 0, resp_generation = 0\<rparr>"

definition evolve :: "EvolveRequest \<Rightarrow> rng \<Rightarrow> py_error + EvolveResponse \<times> rng" where
  "evolve req g =
     (if length (req_cities req) < 2 then Inr (empty_response, g)
      else
        let (current_pop, g1) =
              (if req_population req = []
               then create_initial_population (req_pop_size req) (length (req_cities req)) g
               else (req_population req, g))
        in case generation_loop (nat (req_generations_per_step req)) (req_cities req)
                  (req_obstacles req) (req_mutation_rate req) (req_pop_size req) (current_pop, g1) of
             Inl e \<Rightarrow> Inl e
           | Inr (final_pop, g2) \<Rightarrow>
               (case final_pop of
                  [] \<Rightarrow> Inl IndexError
                | best_route_indices # others \<Rightarrow>
                    (case get_route_distance best_route_indices (req_cities req) (req_obstacles req) of
                       Inl e \<Rightarrow> Inl e
                     | Inr best_dist \<Rightarrow>
                         Inr (\<lparr>resp_population = final_pop, resp_best_route = best_route_indices,
                               resp_best_distance = best_dist, resp_generation = 0\<rparr>, g2))))"

section \<open>Vocabulary of the properties\<close>

text \<open>
  A route is a permutation of the indices below \<open>N\<close> when it has \<open>N\<close> entries and every
  index from 0 to \<open>N - 1\<close> appears exactly once.
\<close>

definition is_permutation :: "nat \<Rightarrow> int list \<Rightarrow> bool" where
  "is_permutation N route \<longleftrightarrow>
     length route = N \<and> list_all (\<lambda>k. count_list route (int k) = 1) [0..<N]"

text \<open>The least cost of a population, when every route of it can be scored.\<close>

definition min_cost :: "Point list \<Rightarrow> Obstacle list \<Rightarrow> int list list \<Rightarrow> py_error + real" where
  "min_cost cities obstacles pop =
     (case score_loop pop cities obstacles [] of
        Inl e \<Rightarrow> Inl e
      | Inr scored \<Rightarrow> Inr (Min (set (map fst scored))))"

section \<open>Vocabulary of the proofs\<close>

text \<open>
  The invariant of the second loop of \<^verbatim>\<open>breed\<close>: no value sits in two slots, every
  placed value is a value of \<^verbatim>\<open>parent2\<close>, and every value of \<^verbatim>\<open>parent2\<close> before
  \<^verbatim>\<open>p2_index\<close> is already placed.
\<close>

definition slots_injective :: "int option list \<Rightarrow> bool" where
  "slots_injective child \<longleftrightarrow>
     (\<forall>i<length child. \<forall>j<length child. child ! i = child ! j \<and> child ! i \<noteq> None \<longrightarrow> i = j)"

definition fill_inv :: "int list \<Rightarrow> int option list \<Rightarrow> nat \<Rightarrow> bool" where
  "fill_inv parent2 child p2_index \<longleftrightarrow>
     (\<forall>v. Some v \<in> set child \<longrightarrow> v \<in> set parent2)
     \<and> (\<forall>m<p2_index. Some (parent2 ! m) \<in> set child)
     \<and> slots_injective child"

text \<open>
  A route can be scored when each of its entries is an index that Python accepts for
  \<^verbatim>\<open>cities\<close>; \<open>cost_of\<close> is then its score, and \<open>ranked\<close> the sorted scored population.
\<close>

definition scorable :: "Point list \<Rightarrow> int list \<Rightarrow> bool" where
  "scorable cities route \<longleftrightarrow>
     list_all (\<lambda>v. - int (length cities) \<le> v \<and> v < int (length cities)) route"

definition cost_of :: "Point list \<Rightarrow> Obstacle list \<Rightarrow> int list \<Rightarrow> real" where
  "cost_of cities obstacles route =
     (case get_route_distance route cities obstacles of Inl e \<Rightarrow> 0 | Inr c \<Rightarrow> c)"

definition ranked :: "Point list \<Rightarrow> Obstacle list \<Rightarrow> int list list \<Rightarrow> (real \<times> int list) list" where
  "ranked cities obstacles pop = sort_key fst (map (\<lambda>r. (cost_of cities obstacles r, r)) pop)"

section \<open>Concrete inputs\<close>

text \<open>
  Four cities on a line, one unit apart. The tour \<open>good_route\<close> has length 6 and the
  tour \<open>bad_route\<close> has length 8.
\<close>

definition line_cities :: "Point list" where
  "line_cities = [\<lparr>point_x = 0, point_y = 0\<rparr>, \<lparr>point_x = 1, point_y = 0\<rparr>,
                  \<lparr>point_x = 2, point_y = 0\<rparr>, \<lparr>point_x = 3, point_y = 0\<rparr>]"

definition good_route :: "int list" where
  "good_route = [0, 1, 2, 3]"

definition bad_route :: "int list" where
  "bad_route = [0, 2, 1, 3]"

definition line_obstacle :: "Obstacle list" where
  "line_obstacle = [\<lparr>obs_x = 1/2, obs_y = 0, radius = 1/4\<rparr>]"

text \<open>
  A request with eleven copies of \<open>bad_route\<close>, \<^verbatim>\<open>pop_size\<close> 11 and one generation, and
  the draws of the random source during that generation: two parent choices, two cut
  points, then the draws of \<^verbatim>\<open>mutate\<close>, which swaps the positions 1 and 2.
\<close>

definition stale_best_request :: EvolveRequest where
  "stale_best_request =
     \<lparr>req_cities = line_cities, req_obstacles = [], req_population = replicate 11 bad_route,
      req_pop_size = 11, req_mutation_rate = 1/2, req_generations_per_step = 1\<rparr>"

definition stale_best_rng :: rng where
  "stale_best_rng = rng_of_list [0, 0, 0, 0, 9/10, 0, 1/2, 9/10, 9/10]"

text \<open>
  A population of twelve routes for \<^verbatim>\<open>pop_size\<close> 12, six of each kind, and its ranking.
\<close>

definition wide_pool_population :: "int list list" where
  "wide_pool_population = replicate 6 bad_route @ replicate 6 good_route"

definition wide_pool_ranked :: "(real \<times> int list) list" where
  "wide_pool_ranked = replicate 6 (6, good_route) @ replicate 6 (8, bad_route)"

text \<open>A request for no generation at all, with the worse route first.\<close>

definition unsorted_request :: EvolveRequest where
  "unsorted_request =
     \<lparr>req_cities = line_cities, req_obstacles = [], req_population = [bad_route, good_route],
      req_pop_size = 2, req_mutation_rate = 1/100, req_generations_per_step = 0\<rparr>"

text \<open>A request with a single city and a population that could not be scored.\<close>

definition single_city_request :: EvolveRequest where
  "single_city_request =
     \<lparr>req_cities = [\<lparr>point_x = 1, point_y = 2\<rparr>], req_obstacles = [],
      req_population = [[5, 5]], req_pop_size = 100, req_mutation_rate = 1/100,
      req_generations_per_step = 10\<rparr>"

declare scan_parent2.simps [simp del]

declare breeding_loop.simps [simp del]

section \<open>Supporting lemmas\<close>

subsection \<open>The fitness loops compute the cost of the specification\<close>

lemma py_get_valid: "0 \<le> i \<Longrightarrow> i < int (length xs) \<Longrightarrow> py_get xs i = Inr (xs ! nat i)"
  by (simp add: py_get_def)

lemma obstacle_loop_count:
  "obstacle_loop a b obstacles penalty =
     penalty + 10000 * int (length (filter (line_intersects_circle a b) obstacles))"
  by (induction obstacles arbitrary: penalty) auto

lemma route_loop_sum:
  assumes "\<forall>v\<in>set route. 0 \<le> v \<and> v < int (length cities)"
      and "\<forall>i\<in>set idxs. i < length route"
  shows "route_loop route cities obstacles idxs (d, p) =
     Inr (d + (\<Sum>i\<leftarrow>idxs. calculate_distance (edge_from route cities i) (edge_to route cities i)),
          p + 10000 * (\<Sum>i\<leftarrow>idxs. int (length (filter
                 (line_intersects_circle (edge_from route cities i) (edge_to route cities i)) obstacles))))"
  using assms(2)
proof (induction idxs arbitrary: d p)
  case Nil
  then show ?case by simp
next
  case (Cons i rest)
  from Cons.prems have i: "i < length route" by simp
  then have ne: "0 < length route" by (cases route) auto
  have j: "(i + 1) mod length route < length route"
    using ne by simp
  have g1: "py_get cities (route ! i) = Inr (edge_from route cities i)"
    using assms(1) i by (simp add: py_get_valid edge_from_def)
  have g2: "py_get cities (route ! ((i + 1) mod length route)) = Inr (edge_to route cities i)"
    using assms(1) j nth_mem [OF j] by (simp add: py_get_valid edge_to_def)
  have g2': "py_get cities (route ! (Suc i mod length route)) = Inr (edge_to route cities i)"
    using g2 by simp
  from Cons.prems have rest: "\<forall>i\<in>set rest. i < length route" by simp
  show ?case
    by (simp add: g1 g2' Cons.IH [OF rest] obstacle_loop_count algebra_simps)
qed

lemma filter_product_count:
  "length (filter (\<lambda>(i, ob). P i ob) (List.product idxs obstacles)) =
     (\<Sum>i\<leftarrow>idxs. length (filter (P i) obstacles))"
  by (induction idxs) (auto simp: filter_map comp_def)

lemma int_sum_list: "int (sum_list (map f xs)) = (\<Sum>x\<leftarrow>xs. int (f x))"
  by (induction xs) auto

lemma get_route_distance_spec:
  assumes "\<forall>v\<in>set route. 0 \<le> v \<and> v < int (length cities)"
  shows "get_route_distance route cities obstacles = Inr (route_cost_spec route cities obstacles)"
proof -
  have idx: "\<forall>i\<in>set [0..<length route]. i < length route" by simp
  have s1: "(\<Sum>i\<leftarrow>[0..<length route]. calculate_distance (edge_from route cities i) (edge_to route cities i))
      = (\<Sum>i<length route. calculate_distance (edge_from route cities i) (edge_to route cities i))"
    by (simp add: interv_sum_list_conv_sum_set_nat atLeast0LessThan)
  show ?thesis
    unfolding get_route_distance_def route_cost_spec_def
    by (simp add: route_loop_sum [OF assms idx] s1 filter_product_count int_sum_list [symmetric])
qed

lemma route_cost_spec_nonneg: "0 \<le> route_cost_spec route cities obstacles"
  unfolding route_cost_spec_def calculate_distance_def
  by (intro add_nonneg_nonneg sum_nonneg) simp_all

subsection \<open>Draws of the random source\<close>

lemma Rep_unit_bounds: "0 \<le> Rep_unit_interval u \<and> Rep_unit_interval u < 1"
  using Rep_unit_interval [of u] by simp

lemma random_index_less:
  assumes "0 < n"
  shows "fst (random_index n g) < n"
proof -
  let ?u = "Rep_unit_interval (g 0)"
  have b: "0 \<le> ?u" "?u < 1" using Rep_unit_bounds by auto
  have "?u * real n < real n" using b assms by simp
  then have "\<lfloor>?u * real n\<rfloor> < int n" by (simp add: floor_less_iff)
  moreover have "0 \<le> \<lfloor>?u * real n\<rfloor>" using b by simp
  ultimately have "nat \<lfloor>?u * real n\<rfloor> < n" by linarith
  then show ?thesis by (simp add: random_index_def random_random_def)
qed

lemma random_index_zero: "fst (random_index 0 g) = 0"
  by (simp add: random_index_def random_random_def)

lemma random_index_le: "fst (random_index n g) \<le> n"
  using random_index_less [of n g] random_index_zero [of g] by (cases "n = 0") auto

lemma randbelow_less: "0 < n \<Longrightarrow> fst (randbelow n g) < n"
  by (simp add: randbelow_def random_index_less)

lemma rng_of_list_Cons:
  "random_random (rng_of_list (u # us)) = ((if 0 \<le> u \<and> u < 1 then u else 0), rng_of_list us)"
  by (auto simp: random_random_def rng_of_list_def to_unit.rep_eq)

lemma rng_of_list_Nil: "random_random (rng_of_list []) = (0, rng_of_list [])"
  by (auto simp: random_random_def rng_of_list_def to_unit.rep_eq)

subsection \<open>Permutations\<close>

lemma count_list_distinct: "distinct xs \<Longrightarrow> x \<in> set xs \<Longrightarrow> count_list xs x = 1"
  by (induction xs) auto

lemma is_permutation_iff:
  "is_permutation N route \<longleftrightarrow> distinct route \<and> set route = int ` {0..<N}"
proof
  assume p: "is_permutation N route"
  then have len: "length route = N"
    and cnt: "\<forall>k<N. count_list route (int k) = 1"
    by (auto simp: is_permutation_def list_all_iff)
  have sub: "int ` {0..<N} \<subseteq> set route"
  proof
    fix v assume "v \<in> int ` {0..<N}"
    then obtain k where k: "k < N" "v = int k" by auto
    with cnt have "count_list route v \<noteq> 0" by simp
    then show "v \<in> set route" by (simp add: count_list_0_iff)
  qed
  have cardN: "card (int ` {0..<N}) = N" by (simp add: card_image)
  have "card (set route) \<le> N" using card_length [of route] len by simp
  moreover have "N \<le> card (set route)" using card_mono [OF _ sub] cardN by simp
  ultimately have c: "card (set route) = N" by simp
  have eq: "set route = int ` {0..<N}"
    using card_subset_eq [OF _ sub] c cardN by simp
  from c len have "distinct route" by (simp add: card_distinct)
  with eq show "distinct route \<and> set route = int ` {0..<N}" by simp
next
  assume a: "distinct route \<and> set route = int ` {0..<N}"
  then have "length route = card (int ` {0..<N})" using distinct_card [of route] by simp
  then have len: "length route = N" by (simp add: card_image)
  have "\<forall>k<N. count_list route (int k) = 1"
  proof (intro allI impI)
    fix k assume "k < N"
    then have "int k \<in> set route" using a by simp
    with a show "count_list route (int k) = 1" by (simp add: count_list_distinct)
  qed
  with len show "is_permutation N route" by (auto simp: is_permutation_def list_all_iff)
qed

lemma is_permutation_mset:
  "mset r' = mset r \<Longrightarrow> is_permutation N r \<Longrightarrow> is_permutation N r'"
  using mset_eq_setD [of r' r] mset_eq_imp_distinct_iff [of r' r]
  by (simp add: is_permutation_iff)

lemma is_permutation_identity: "is_permutation N (map int [0..<N])"
  by (simp add: is_permutation_iff distinct_map)

lemma is_permutation_length: "is_permutation N r \<Longrightarrow> length r = N"
  by (simp add: is_permutation_def)

subsection \<open>Swaps: mutate, shuffle and the initial population\<close>

lemma mset_swap2:
  "i < length xs \<Longrightarrow> j < length xs \<Longrightarrow> mset (xs[i := xs ! j, j := xs ! i]) = mset xs"
  by (simp add: mset_swap)

lemma mutate_loop_mset:
  "\<forall>i\<in>set idxs. i < length route \<Longrightarrow>
     mset (fst (mutate_loop rate idxs (route, g))) = mset route"
proof (induction idxs arbitrary: route g)
  case Nil
  then show ?case by simp
next
  case (Cons i rest)
  then have i: "i < length route" by simp
  then have pos: "0 < length route" by (cases route) auto
  show ?case
  proof (cases "fst (random_random g) < rate")
    case False
    then show ?thesis using Cons by (simp add: split_beta)
  next
    case True
    let ?g1 = "snd (random_random g)"
    let ?sw = "fst (random_index (length route) ?g1)"
    let ?g2 = "snd (random_index (length route) ?g1)"
    let ?r = "route[i := route ! ?sw, ?sw := route ! i]"
    have sw: "?sw < length route" using pos by (rule random_index_less)
    have "mset (fst (mutate_loop rate rest (?r, ?g2))) = mset ?r"
      using Cons.prems by (intro Cons.IH) simp
    also have "\<dots> = mset route" using i sw by (rule mset_swap2)
    finally show ?thesis using True by (simp add: split_beta)
  qed
qed

lemma mutate_mset: "mset (fst (mutate route rate g)) = mset route"
  by (simp add: mutate_def mutate_loop_mset)

lemma shuffle_loop_mset:
  "\<forall>i\<in>set idxs. i < length x \<Longrightarrow> mset (fst (shuffle_loop idxs (x, g))) = mset x"
proof (induction idxs arbitrary: x g)
  case Nil
  then show ?case by simp
next
  case (Cons i rest)
  then have i: "i < length x" by simp
  let ?j = "fst (randbelow (i + 1) g)"
  let ?g' = "snd (randbelow (i + 1) g)"
  let ?x = "x[i := x ! ?j, ?j := x ! i]"
  have "?j < i + 1" by (rule randbelow_less) simp
  with i have j: "?j < length x" by simp
  have "mset (fst (shuffle_loop rest (?x, ?g'))) = mset ?x"
    using Cons.prems by (intro Cons.IH) simp
  also have "\<dots> = mset x" using i j by (rule mset_swap2)
  finally show ?case by (simp add: split_beta)
qed

lemma shuffle_mset: "mset (fst (shuffle x g)) = mset x"
  by (simp add: shuffle_def shuffle_loop_mset)

lemma init_loop_perm:
  "is_permutation N indices \<Longrightarrow> \<forall>r\<in>set population. is_permutation N r \<Longrightarrow>
     \<forall>r\<in>set (fst (init_loop k (indices, g) population)). is_permutation N r"
proof (induction k arbitrary: indices g population)
  case 0
  then show ?case by simp
next
  case (Suc k)
  let ?i = "fst (shuffle indices g)"
  let ?g = "snd (shuffle indices g)"
  have p: "is_permutation N ?i"
    using shuffle_mset Suc.prems(1) by (rule is_permutation_mset)
  have "\<forall>r\<in>set (fst (init_loop k (?i, ?g) (population @ [?i]))). is_permutation N r"
    using p Suc.prems(2) by (intro Suc.IH) auto
  then show ?case by (simp add: split_beta)
qed

lemma init_loop_length:
  "length (fst (init_loop k s population)) = length population + k"
proof (induction k arbitrary: s population)
  case 0
  then show ?case by (cases s) simp
next
  case (Suc k)
  then show ?case by (cases s) (simp add: split_beta)
qed

lemma create_initial_population_perm:
  "\<forall>r\<in>set (fst (create_initial_population pop_size N g)). is_permutation N r"
  unfolding create_initial_population_def
  by (rule init_loop_perm) (simp_all add: is_permutation_identity)

lemma create_initial_population_length:
  "length (fst (create_initial_population pop_size N g)) = nat pop_size"
  by (simp add: create_initial_population_def init_loop_length)

subsection \<open>The two loops of breed\<close>

text \<open>
  For each loop there is a lemma on what a returned value satisfies, for all inputs, and a
  lemma that the loop returns, for permutations.
\<close>

lemma copy_loop_result:
  "\<forall>i\<in>set idxs. i < length parent1 \<and> i < length child \<Longrightarrow>
     \<exists>child'. copy_loop parent1 idxs child = Inr child' \<and> length child' = length child
       \<and> (\<forall>i<length child. child' ! i = (if i \<in> set idxs then Some (parent1 ! i) else child ! i))"
proof (induction idxs arbitrary: child)
  case Nil
  then show ?case by simp
next
  case (Cons i rest)
  let ?c = "child[i := Some (parent1 ! i)]"
  from Cons.prems have i: "i < length parent1" "i < length child" by auto
  from Cons.prems have "\<forall>k\<in>set rest. k < length parent1 \<and> k < length ?c" by simp
  from Cons.IH [OF this] obtain child' where
    c: "copy_loop parent1 rest ?c = Inr child'" "length child' = length ?c"
       "\<forall>k<length ?c. child' ! k = (if k \<in> set rest then Some (parent1 ! k) else ?c ! k)"
    by blast
  have "\<forall>k<length child. child' ! k = (if k \<in> set (i # rest) then Some (parent1 ! k) else child ! k)"
    using c(3) by (auto simp: nth_list_update)
  with c(1,2) i show ?case by simp
qed

lemma copy_loop_Inr:
  "copy_loop parent1 idxs child = Inr child' \<Longrightarrow>
     length child' = length child
     \<and> (\<forall>v. Some v \<in> set child' \<longrightarrow> Some v \<in> set child \<or> v \<in> set parent1)"
proof (induction idxs arbitrary: child)
  case Nil
  then show ?case by simp
next
  case (Cons i rest)
  let ?c = "child[i := Some (parent1 ! i)]"
  from Cons.prems have i: "i < length parent1" "i < length child"
    and r: "copy_loop parent1 rest ?c = Inr child'"
    by (auto split: if_splits)
  from Cons.IH [OF r] have
    l: "length child' = length ?c" and
    s: "\<forall>v. Some v \<in> set child' \<longrightarrow> Some v \<in> set ?c \<or> v \<in> set parent1" by auto
  have "\<forall>v. Some v \<in> set ?c \<longrightarrow> Some v \<in> set child \<or> v \<in> set parent1"
    using i set_update_subset_insert [of child i "Some (parent1 ! i)"] by auto
  with s l show ?case by auto
qed

lemma scan_parent2_finds:
  "k < length parent2 \<Longrightarrow> p \<le> k \<Longrightarrow> Some (parent2 ! k) \<notin> set child \<Longrightarrow>
     \<exists>p'. scan_parent2 parent2 child p = Inr p' \<and> p \<le> p' \<and> p' \<le> k
       \<and> Some (parent2 ! p') \<notin> set child
       \<and> (\<forall>m. p \<le> m \<and> m < p' \<longrightarrow> Some (parent2 ! m) \<in> set child)"
proof (induction parent2 child p rule: scan_parent2.induct)
  case (1 parent2 child p)
  from "1.prems" have p: "p < length parent2" by simp
  show ?case
  proof (cases "Some (parent2 ! p) \<in> set child")
    case False
    then show ?thesis
      using p "1.prems" by (subst scan_parent2.simps) auto
  next
    case True
    with "1.prems" have "p \<noteq> k" by auto
    with "1.prems" have le: "Suc p \<le> k" by simp
    from "1.IH" [OF p True "1.prems"(1) le "1.prems"(3)] obtain p' where
      p': "scan_parent2 parent2 child (Suc p) = Inr p'" "Suc p \<le> p'" "p' \<le> k"
          "Some (parent2 ! p') \<notin> set child"
          "\<forall>m. Suc p \<le> m \<and> m < p' \<longrightarrow> Some (parent2 ! m) \<in> set child"
      by blast
    have "\<forall>m. p \<le> m \<and> m < p' \<longrightarrow> Some (parent2 ! m) \<in> set child"
    proof (intro allI impI)
      fix m assume m: "p \<le> m \<and> m < p'"
      show "Some (parent2 ! m) \<in> set child"
      proof (cases "m = p")
        case True
        then show ?thesis using \<open>Some (parent2 ! p) \<in> set child\<close> by simp
      next
        case False
        with m have "Suc p \<le> m \<and> m < p'" by simp
        with p'(5) show ?thesis by blast
      qed
    qed
    with p' p True show ?thesis
      by (subst scan_parent2.simps) auto
  qed
qed

lemma scan_parent2_Inr:
  "scan_parent2 parent2 child p = Inr p' \<Longrightarrow> p' < length parent2"
proof (induction parent2 child p rule: scan_parent2.induct)
  case (1 parent2 child p)
  from "1.prems" show ?case
    by (subst (asm) scan_parent2.simps) (auto split: if_splits dest: "1.IH")
qed

lemma set_update_None_keeps:
  assumes "child ! i = None" "x \<in> set child" "x \<noteq> None"
  shows "x \<in> set (child[i := y])"
proof -
  from assms(2) obtain j where j: "j < length child" "child ! j = x"
    by (auto simp: in_set_conv_nth)
  with assms have "j \<noteq> i" by auto
  with j have "child[i := y] ! j = x" "j < length (child[i := y])" by simp_all
  then show ?thesis by (metis nth_mem)
qed

lemma unused_value_exists:
  assumes d: "distinct parent2"
      and l: "length child = length parent2"
      and inv: "fill_inv parent2 child p"
      and i: "i < length child" "child ! i = None"
  shows "\<exists>k. k < length parent2 \<and> p \<le> k \<and> Some (parent2 ! k) \<notin> set child"
proof -
  let ?S = "{v. Some v \<in> set child}"
  have none: "None \<in> set child" using i by (metis nth_mem)
  have S: "?S = the ` (set child - {None})" by force
  have "card ?S \<le> card (set child - {None})" unfolding S by (rule card_image_le) simp
  also have "\<dots> = card (set child) - 1" using none by simp
  also have "\<dots> < card (set child)" using none card_gt_0_iff [of "set child"] by auto
  also have "\<dots> \<le> length child" by (rule card_length)
  also have "\<dots> = card (set parent2)" using l d by (simp add: distinct_card)
  finally have lt: "card ?S < card (set parent2)" .
  have sub: "?S \<subseteq> set parent2" using inv by (auto simp: fill_inv_def)
  have "?S \<noteq> set parent2" using lt by auto
  with sub obtain v where v: "v \<in> set parent2" "Some v \<notin> set child" by auto
  then obtain k where k: "k < length parent2" "parent2 ! k = v" by (auto simp: in_set_conv_nth)
  have "p \<le> k"
  proof (rule ccontr)
    assume "\<not> p \<le> k"
    then have "k < p" by simp
    with inv have "Some (parent2 ! k) \<in> set child" by (simp add: fill_inv_def)
    with k v show False by simp
  qed
  with k v show ?thesis by auto
qed

lemma fill_inv_update:
  assumes inv: "fill_inv parent2 child p"
      and i: "i < length child" "child ! i = None"
      and p': "p' < length parent2" "p \<le> p'" "Some (parent2 ! p') \<notin> set child"
              "\<forall>m. p \<le> m \<and> m < p' \<longrightarrow> Some (parent2 ! m) \<in> set child"
  shows "fill_inv parent2 (child[i := Some (parent2 ! p')]) p'"
proof -
  let ?v = "parent2 ! p'"
  let ?c = "child[i := Some ?v]"
  have keep: "\<And>x. x \<in> set child \<Longrightarrow> x \<noteq> None \<Longrightarrow> x \<in> set ?c"
    using i(2) by (rule set_update_None_keeps)
  have a: "\<forall>v. Some v \<in> set ?c \<longrightarrow> v \<in> set parent2"
  proof (intro allI impI)
    fix v assume "Some v \<in> set ?c"
    then have "Some v = Some ?v \<or> Some v \<in> set child"
      using set_update_subset_insert [of child i "Some ?v"] by auto
    then show "v \<in> set parent2"
      using inv p'(1) by (auto simp: fill_inv_def)
  qed
  have b: "\<forall>m<p'. Some (parent2 ! m) \<in> set ?c"
  proof (intro allI impI)
    fix m assume m: "m < p'"
    have "Some (parent2 ! m) \<in> set child"
    proof (cases "m < p")
      case True
      with inv show ?thesis by (simp add: fill_inv_def)
    next
      case False
      with m p'(4) show ?thesis by simp
    qed
    then show "Some (parent2 ! m) \<in> set ?c" by (rule keep) simp
  qed
  have c: "slots_injective ?c"
    unfolding slots_injective_def
  proof (intro allI impI)
    fix a b
    assume a: "a < length ?c" and b: "b < length ?c"
       and e: "?c ! a = ?c ! b \<and> ?c ! a \<noteq> None"
    from inv have inj: "slots_injective child" by (simp add: fill_inv_def)
    show "a = b"
    proof (cases "a = i \<or> b = i")
      case False
      with a b e inj show ?thesis by (auto simp: slots_injective_def)
    next
      case True
      show ?thesis
      proof (rule ccontr)
        assume ne: "a \<noteq> b"
        with True a b e i obtain j where j: "j < length child" "child ! j = Some ?v"
          by (auto simp: nth_list_update split: if_splits)
        then have "Some ?v \<in> set child" by (metis nth_mem)
        with p'(3) show False by simp
      qed
    qed
  qed
  from a b c show ?thesis by (simp add: fill_inv_def)
qed

lemma fill_loop_total:
  assumes d: "distinct parent2"
  shows "length child = length parent2 \<Longrightarrow> fill_inv parent2 child p \<Longrightarrow>
     \<forall>i\<in>set idxs. i < length child \<Longrightarrow>
     \<exists>child' p'. fill_loop parent2 idxs (child, p) = Inr (child', p')
        \<and> length child' = length child \<and> fill_inv parent2 child' p'"
proof (induction idxs arbitrary: child p)
  case Nil
  then show ?case by simp
next
  case (Cons i rest)
  from Cons.prems have i: "i < length child" by simp
  show ?case
  proof (cases "child ! i = None")
    case False
    from Cons.prems have "\<forall>k\<in>set rest. k < length child" by simp
    from Cons.IH [OF Cons.prems(1,2) this] False show ?thesis by auto
  next
    case True
    from unused_value_exists [OF d Cons.prems(1,2) i True] obtain k where
      k: "k < length parent2" "p \<le> k" "Some (parent2 ! k) \<notin> set child" by blast
    from scan_parent2_finds [OF k] obtain p' where
      p': "scan_parent2 parent2 child p = Inr p'" "p \<le> p'" "p' \<le> k"
          "Some (parent2 ! p') \<notin> set child"
          "\<forall>m. p \<le> m \<and> m < p' \<longrightarrow> Some (parent2 ! m) \<in> set child"
      by blast
    let ?c = "child[i := Some (parent2 ! p')]"
    have lt: "p' < length parent2" using p'(3) k(1) by simp
    have inv: "fill_inv parent2 ?c p'"
      using Cons.prems(2) i True lt p'(2,4,5) by (rule fill_inv_update)
    have len: "length ?c = length parent2" using Cons.prems(1) by simp
    from Cons.prems have "\<forall>k\<in>set rest. k < length ?c" by simp
    from Cons.IH [OF len inv this] True p'(1) show ?thesis by simp
  qed
qed

lemma fill_loop_Inr:
  "fill_loop parent2 idxs (child, p) = Inr (child', p') \<Longrightarrow>
     length child' = length child
     \<and> (\<forall>i<length child. child ! i \<noteq> None \<longrightarrow> child' ! i \<noteq> None)
     \<and> (\<forall>i\<in>set idxs. i < length child \<longrightarrow> child' ! i \<noteq> None)
     \<and> (\<forall>v. Some v \<in> set child' \<longrightarrow> Some v \<in> set child \<or> v \<in> set parent2)"
proof (induction idxs arbitrary: child p)
  case Nil
  then show ?case by simp
next
  case (Cons i rest)
  show ?case
  proof (cases "child ! i = None")
    case False
    with Cons.prems have "fill_loop parent2 rest (child, p) = Inr (child', p')" by simp
    from Cons.IH [OF this] False show ?thesis by auto
  next
    case True
    with Cons.prems obtain q where
      q: "scan_parent2 parent2 child p = Inr q"
         "fill_loop parent2 rest (child[i := Some (parent2 ! q)], q) = Inr (child', p')"
      by (auto split: sum.splits)
    let ?c = "child[i := Some (parent2 ! q)]"
    have ql: "q < length parent2" using q(1) by (rule scan_parent2_Inr)
    from Cons.IH [OF q(2)] have
      ih: "length child' = length ?c"
          "\<forall>k<length ?c. ?c ! k \<noteq> None \<longrightarrow> child' ! k \<noteq> None"
          "\<forall>k\<in>set rest. k < length ?c \<longrightarrow> child' ! k \<noteq> None"
          "\<forall>v. Some v \<in> set child' \<longrightarrow> Some v \<in> set ?c \<or> v \<in> set parent2"
      by auto
    have a: "\<forall>k<length child. child ! k \<noteq> None \<longrightarrow> child' ! k \<noteq> None"
    proof (intro allI impI)
      fix k assume k: "k < length child" "child ! k \<noteq> None"
      with True have "k \<noteq> i" by auto
      then have "?c ! k = child ! k" by simp
      with ih(2) k show "child' ! k \<noteq> None" by (metis length_list_update)
    qed
    have b: "\<forall>k\<in>set (i # rest). k < length child \<longrightarrow> child' ! k \<noteq> None"
    proof (intro ballI impI)
      fix k assume k: "k \<in> set (i # rest)" "k < length child"
      show "child' ! k \<noteq> None"
      proof (cases "k = i")
        case True
        with k have "?c ! k = Some (parent2 ! q)" by simp
        then have "?c ! k \<noteq> None" by simp
        with ih(2) k show ?thesis by (metis length_list_update)
      next
        case False
        with k have "k \<in> set rest" by simp
        with ih(3) k show ?thesis by (metis length_list_update)
      qed
    qed
    have c: "\<forall>v. Some v \<in> set child' \<longrightarrow> Some v \<in> set child \<or> v \<in> set parent2"
    proof (intro allI impI)
      fix v assume "Some v \<in> set child'"
      with ih(4) have "Some v \<in> set ?c \<or> v \<in> set parent2" by simp
      moreover have "set ?c \<subseteq> insert (Some (parent2 ! q)) (set child)"
        by (rule set_update_subset_insert)
      ultimately show "Some v \<in> set child \<or> v \<in> set parent2" using ql by auto
    qed
    from ih(1) a b c show ?thesis by simp
  qed
qed

subsection \<open>breed\<close>

lemma breed_at_Inr:
  assumes "breed_at start end' parent1 parent2 = Inr child"
  shows "length child = length parent1 \<and> None \<notin> set child
         \<and> (\<forall>v. Some v \<in> set child \<longrightarrow> v \<in> set parent1 \<union> set parent2)"
proof -
  let ?c0 = "replicate (length parent1) None :: int option list"
  from assms obtain c1 p' where
    c1: "copy_loop parent1 [start..<end'] ?c0 = Inr c1"
    and f: "fill_loop parent2 [0..<length c1] (c1, 0) = Inr (child, p')"
    by (auto simp: breed_at_def split: sum.splits)
  from copy_loop_Inr [OF c1] have
    l1: "length c1 = length parent1" and
    s1: "\<forall>v. Some v \<in> set c1 \<longrightarrow> v \<in> set parent1"
    by auto
  from fill_loop_Inr [OF f] have
    l2: "length child = length c1" and
    n: "\<forall>i\<in>set [0..<length c1]. i < length c1 \<longrightarrow> child ! i \<noteq> None" and
    s2: "\<forall>v. Some v \<in> set child \<longrightarrow> Some v \<in> set c1 \<or> v \<in> set parent2"
    by auto
  have "None \<notin> set child"
  proof
    assume "None \<in> set child"
    then obtain i where "i < length child" "child ! i = None" by (auto simp: in_set_conv_nth)
    with n l2 show False by (metis atLeastLessThan_iff set_upt zero_le)
  qed
  with l1 l2 s1 s2 show ?thesis by auto
qed

lemma breed_at_perm:
  assumes p1: "is_permutation N parent1" and p2: "is_permutation N parent2"
      and e: "end' \<le> N"
  shows "\<exists>child. breed_at start end' parent1 parent2 = Inr child
           \<and> is_permutation N (map the child)"
proof -
  from p1 p2 have len: "length parent1 = N" "length parent2 = N"
    by (simp_all add: is_permutation_length)
  from p1 p2 have d: "distinct parent1" "distinct parent2"
    and sets: "set parent1 = set parent2"
    by (simp_all add: is_permutation_iff)
  let ?c0 = "replicate N None :: int option list"
  have "\<forall>i\<in>set [start..<end']. i < length parent1 \<and> i < length ?c0"
    using e len by simp
  from copy_loop_result [OF this] obtain c1 where
    c1: "copy_loop parent1 [start..<end'] ?c0 = Inr c1" "length c1 = N"
        "\<forall>i<N. c1 ! i = (if i \<in> set [start..<end'] then Some (parent1 ! i) else ?c0 ! i)"
    by auto
  have some: "\<And>i v. i < N \<Longrightarrow> c1 ! i = Some v \<Longrightarrow> v = parent1 ! i"
    using c1(3) by (auto split: if_splits)
  have inv: "fill_inv parent2 c1 0"
    unfolding fill_inv_def slots_injective_def
  proof (intro conjI allI impI)
    fix v assume "Some v \<in> set c1"
    then obtain i where "i < N" "c1 ! i = Some v"
      using c1(2) by (auto simp: in_set_conv_nth)
    with some have "v = parent1 ! i" by simp
    with \<open>i < N\<close> len sets show "v \<in> set parent2" by (metis nth_mem)
  next
    fix m :: nat assume "m < 0"
    then show "Some (parent2 ! m) \<in> set c1" by simp
  next
    fix i j
    assume i: "i < length c1" and j: "j < length c1"
       and eq: "c1 ! i = c1 ! j \<and> c1 ! i \<noteq> None"
    from eq have "c1 ! i \<noteq> None" by blast
    then obtain v where "c1 ! i = Some v" by (cases "c1 ! i") auto
    with eq have v: "c1 ! i = Some v" "c1 ! j = Some v" by simp_all
    with some i j c1(2) have "parent1 ! i = parent1 ! j" by metis
    with d(1) i j c1(2) len show "i = j" by (simp add: nth_eq_iff_index_eq)
  qed
  have l1: "length c1 = length parent2" using c1(2) len by simp
  have "\<forall>i\<in>set [0..<length c1]. i < length c1" by simp
  from fill_loop_total [OF d(2) l1 inv this] obtain child p' where
    f: "fill_loop parent2 [0..<length c1] (c1, 0) = Inr (child, p')"
       "length child = length c1" "fill_inv parent2 child p'"
    by blast
  have b: "breed_at start end' parent1 parent2 = Inr child"
    using c1(1) f(1) len by (simp add: breed_at_def)
  from breed_at_Inr [OF b] have none: "None \<notin> set child" by simp
  have lc: "length child = N" using f(2) c1(2) by simp
  have nn: "\<And>i. i < N \<Longrightarrow> child ! i \<noteq> None"
    using none lc by (metis nth_mem)
  have dist: "distinct (map the child)"
    unfolding distinct_conv_nth
  proof (intro allI impI)
    fix i j
    assume i: "i < length (map the child)" and j: "j < length (map the child)" and ne: "i \<noteq> j"
    show "map the child ! i \<noteq> map the child ! j"
    proof
      assume "map the child ! i = map the child ! j"
      with i j have "the (child ! i) = the (child ! j)" by simp
      moreover have "child ! i \<noteq> None" "child ! j \<noteq> None" using i j lc nn by simp_all
      ultimately have "child ! i = child ! j" by (metis option.expand)
      with f(3) i j \<open>child ! i \<noteq> None\<close> have "i = j"
        by (simp add: fill_inv_def slots_injective_def)
      with ne show False by simp
    qed
  qed
  have sub: "set (map the child) \<subseteq> set parent2"
  proof
    fix v assume "v \<in> set (map the child)"
    then obtain c where c: "c \<in> set child" "the c = v" by auto
    from c(1) none have "c \<noteq> None" by metis
    then obtain w where "c = Some w" by (cases c) auto
    with c(2) have "c = Some v" by simp
    with c(1) have "Some v \<in> set child" by simp
    with f(3) show "v \<in> set parent2" by (simp add: fill_inv_def)
  qed
  have "card (set (map the child)) = card (set parent2)"
    using distinct_card [OF dist] distinct_card [OF d(2)] lc len by simp
  with sub have "set (map the child) = set parent2"
    by (simp add: card_subset_eq)
  with dist p2 have "is_permutation N (map the child)"
    by (simp add: is_permutation_iff)
  with b show ?thesis by blast
qed

lemma breed_perm:
  assumes p1: "is_permutation N parent1" and p2: "is_permutation N parent2"
  shows "\<exists>child g'. breed parent1 parent2 g = Inr (child, g') \<and> is_permutation N child"
proof -
  have len: "length parent1 = N" using p1 by (rule is_permutation_length)
  obtain a g1 where a: "random_index N g = (a, g1)" by (cases "random_index N g")
  obtain b g2 where b: "random_index N g1 = (b, g2)" by (cases "random_index N g1")
  have le: "a \<le> N" "b \<le> N"
    using random_index_le [of N g] random_index_le [of N g1] a b by simp_all
  show ?thesis
  proof (cases "a > b")
    case True
    from breed_at_perm [OF p1 p2 le(1), of b] obtain child where
      "breed_at b a parent1 parent2 = Inr child" "is_permutation N (map the child)" by blast
    with True a b len show ?thesis by (simp add: breed_def)
  next
    case False
    from breed_at_perm [OF p1 p2 le(2), of a] obtain child where
      "breed_at a b parent1 parent2 = Inr child" "is_permutation N (map the child)" by blast
    with False a b len show ?thesis by (simp add: breed_def)
  qed
qed

lemma breed_unfold:
  "breed parent1 parent2 g =
     (let r1 = random_index (length parent1) g;
          r2 = random_index (length parent1) (snd r1);
          s = (if fst r1 > fst r2 then fst r2 else fst r1);
          e = (if fst r1 > fst r2 then fst r1 else fst r2)
      in case breed_at s e parent1 parent2 of
           Inl err \<Rightarrow> Inl err
         | Inr child \<Rightarrow> Inr (map the child, snd r2))"
  by (simp add: breed_def Let_def split_beta)

lemma breed_Inr_set:
  assumes "breed parent1 parent2 g = Inr (child, g')"
  shows "set child \<subseteq> set parent1 \<union> set parent2"
proof -
  from assms obtain s e c where
    c: "breed_at s e parent1 parent2 = Inr c" "child = map the c"
    unfolding breed_unfold Let_def by (auto split: sum.splits)
  from breed_at_Inr [OF c(1)] have
    none: "None \<notin> set c" and
    sub: "\<forall>v. Some v \<in> set c \<longrightarrow> v \<in> set parent1 \<union> set parent2" by auto
  show ?thesis
  proof
    fix v assume "v \<in> set child"
    with c(2) obtain x where x: "x \<in> set c" "the x = v" by auto
    from x(1) none have "x \<noteq> None" by metis
    then obtain w where "x = Some w" by (cases x) auto
    with x(2) have "x = Some v" by simp
    with x(1) have "Some v \<in> set c" by simp
    with sub show "v \<in> set parent1 \<union> set parent2" by blast
  qed
qed

subsection \<open>Which routes can be scored\<close>

lemma py_get_Inr_iff:
  "(\<exists>x. py_get xs i = Inr x) \<longleftrightarrow> - int (length xs) \<le> i \<and> i < int (length xs)"
  by (auto simp: py_get_def Let_def)

lemma route_loop_Inr_iff:
  "(\<exists>res. route_loop route cities obstacles idxs acc = Inr res) \<longleftrightarrow>
     (\<forall>i\<in>set idxs. (\<exists>x. py_get cities (route ! i) = Inr x)
        \<and> (\<exists>x. py_get cities (route ! ((i + 1) mod length route)) = Inr x))"
proof (induction idxs arbitrary: acc)
  case Nil
  then show ?case by (cases acc) simp
next
  case (Cons i rest)
  obtain d p where acc: "acc = (d, p)" by (cases acc)
  show ?case
  proof (cases "py_get cities (route ! i)")
    case (Inl e)
    then show ?thesis by (simp add: acc)
  next
    case from_city: (Inr a)
    show ?thesis
    proof (cases "py_get cities (route ! ((i + 1) mod length route))")
      case (Inl e)
      then show ?thesis using from_city by (simp add: acc)
    next
      case (Inr b)
      then show ?thesis using from_city Cons.IH by (simp add: acc)
    qed
  qed
qed

lemma get_route_distance_Inr_iff:
  "(\<exists>c. get_route_distance route cities obstacles = Inr c) \<longleftrightarrow> scorable cities route"
proof -
  let ?ok = "\<lambda>v. - int (length cities) \<le> v \<and> v < int (length cities)"
  have "(\<exists>c. get_route_distance route cities obstacles = Inr c) \<longleftrightarrow>
        (\<exists>res. route_loop route cities obstacles [0..<length route] (0, 0) = Inr res)"
    by (auto simp: get_route_distance_def split: sum.splits)
  also have "\<dots> \<longleftrightarrow> (\<forall>i<length route. ?ok (route ! i) \<and> ?ok (route ! ((i + 1) mod length route)))"
    unfolding route_loop_Inr_iff py_get_Inr_iff by auto
  also have "\<dots> \<longleftrightarrow> (\<forall>i<length route. ?ok (route ! i))"
  proof
    assume "\<forall>i<length route. ?ok (route ! i) \<and> ?ok (route ! ((i + 1) mod length route))"
    then show "\<forall>i<length route. ?ok (route ! i)" by blast
  next
    assume a: "\<forall>i<length route. ?ok (route ! i)"
    show "\<forall>i<length route. ?ok (route ! i) \<and> ?ok (route ! ((i + 1) mod length route))"
    proof (intro allI impI)
      fix i assume i: "i < length route"
      then have "0 < length route" by (cases route) auto
      then have "(i + 1) mod length route < length route" by simp
      with a i show "?ok (route ! i) \<and> ?ok (route ! ((i + 1) mod length route))" by blast
    qed
  qed
  also have "\<dots> \<longleftrightarrow> scorable cities route"
    unfolding scorable_def list_all_iff all_set_conv_all_nth ..
  finally show ?thesis .
qed

lemma scorable_cost:
  "scorable cities route \<Longrightarrow>
     get_route_distance route cities obstacles = Inr (cost_of cities obstacles route)"
  using get_route_distance_Inr_iff [of route cities obstacles]
  by (auto simp: cost_of_def)

lemma is_permutation_scorable: "is_permutation (length cities) route \<Longrightarrow> scorable cities route"
  by (auto simp: is_permutation_iff scorable_def list_all_iff)

lemma scorable_subset:
  "set r \<subseteq> set r1 \<union> set r2 \<Longrightarrow> scorable cities r1 \<Longrightarrow> scorable cities r2 \<Longrightarrow> scorable cities r"
  by (auto simp: scorable_def list_all_iff)

lemma score_loop_scorable:
  "\<forall>r\<in>set pop. scorable cities r \<Longrightarrow>
     score_loop pop cities obstacles acc = Inr (acc @ map (\<lambda>r. (cost_of cities obstacles r, r)) pop)"
  by (induction pop arbitrary: acc) (auto simp: scorable_cost)

lemma score_loop_Inr:
  "score_loop pop cities obstacles acc = Inr scored \<Longrightarrow> \<forall>r\<in>set pop. scorable cities r"
proof (induction pop arbitrary: acc)
  case Nil
  then show ?case by simp
next
  case (Cons r rest)
  from Cons.prems obtain c where c: "get_route_distance r cities obstacles = Inr c"
    by (cases "get_route_distance r cities obstacles") auto
  then have "scorable cities r" using get_route_distance_Inr_iff by blast
  moreover from Cons.prems c have "\<forall>r\<in>set rest. scorable cities r"
    by (auto dest: Cons.IH)
  ultimately show ?case by simp
qed

lemma min_cost_scorable:
  "\<forall>r\<in>set pop. scorable cities r \<Longrightarrow>
     min_cost cities obstacles pop = Inr (Min (cost_of cities obstacles ` set pop))"
  by (simp add: min_cost_def score_loop_scorable image_image)

subsection \<open>Choosing parents and making a child\<close>

lemma choice_index_less:
  "choice_index seq g = Inr (k, g') \<Longrightarrow> k < length seq"
  using randbelow_less [of "length seq" g]
  by (cases "seq = []") (auto simp: choice_index_def)

lemma choice_Inr:
  "choice seq g = Inr (x, g') \<Longrightarrow> x \<in> set seq"
  by (auto simp: choice_def split: sum.splits dest: choice_index_less)

lemma choice_total:
  "seq \<noteq> [] \<Longrightarrow> \<exists>x g'. choice seq g = Inr (x, g') \<and> x \<in> set seq"
proof -
  assume ne: "seq \<noteq> []"
  obtain k g' where r: "randbelow (length seq) g = (k, g')" by (cases "randbelow (length seq) g")
  with ne have "choice seq g = Inr (seq ! k, g')" by (simp add: choice_def choice_index_def)
  moreover from this have "seq ! k \<in> set seq" by (rule choice_Inr)
  ultimately show ?thesis by blast
qed

lemma make_child_parent_indices:
  "make_child scored_pop mutation_rate g =
     (case parent_indices scored_pop g of
        Inl e \<Rightarrow> Inl e
      | Inr ((k1, k2), g2) \<Rightarrow>
          (case breed (snd (take 50 scored_pop ! k1)) (snd (take 50 scored_pop ! k2)) g2 of
             Inl e \<Rightarrow> Inl e
           | Inr (child, g3) \<Rightarrow> Inr (mutate child mutation_rate g3)))"
  by (simp add: make_child_def parent_indices_def choice_def split: sum.splits prod.splits)

text \<open>The pool of parents is the first 50 entries, or all of them when there are fewer.\<close>

lemma parent_indices_bound:
  assumes "parent_indices scored_pop g = Inr ((k1, k2), g')"
  shows "k1 < min 50 (length scored_pop) \<and> k2 < min 50 (length scored_pop)"
proof -
  from assms obtain g1 where
    a: "choice_index (take 50 scored_pop) g = Inr (k1, g1)" and
    b: "choice_index (take 50 scored_pop) g1 = Inr (k2, g')"
    by (auto simp: parent_indices_def split: sum.splits)
  from choice_index_less [OF a] choice_index_less [OF b] show ?thesis
    by (simp add: min.commute)
qed

lemma make_child_Inr:
  assumes "make_child scored_pop mutation_rate g = Inr (child, g')"
  shows "\<exists>e1\<in>set scored_pop. \<exists>e2\<in>set scored_pop. set child \<subseteq> set (snd e1) \<union> set (snd e2)"
proof -
  from assms obtain e1 g1 e2 g2 c g3 where
    c1: "choice (take 50 scored_pop) g = Inr (e1, g1)" and
    c2: "choice (take 50 scored_pop) g1 = Inr (e2, g2)" and
    b: "breed (snd e1) (snd e2) g2 = Inr (c, g3)" and
    m: "mutate c mutation_rate g3 = (child, g')"
    by (auto simp: make_child_def split: sum.splits)
  from c1 c2 have e: "e1 \<in> set scored_pop" "e2 \<in> set scored_pop"
    by (auto dest!: choice_Inr in_set_takeD)
  have "set child = set c"
    using mutate_mset [of c mutation_rate g3] m by (auto dest: mset_eq_setD)
  with breed_Inr_set [OF b] e show ?thesis by blast
qed

lemma make_child_total:
  assumes ne: "scored_pop \<noteq> []"
      and perm: "\<forall>e\<in>set scored_pop. is_permutation N (snd e)"
  shows "\<exists>child g'. make_child scored_pop mutation_rate g = Inr (child, g')
           \<and> is_permutation N child"
proof -
  from ne have t: "take 50 scored_pop \<noteq> []" by simp
  from choice_total [OF t] obtain e1 g1 where
    c1: "choice (take 50 scored_pop) g = Inr (e1, g1)" "e1 \<in> set (take 50 scored_pop)" by blast
  from choice_total [OF t] obtain e2 g2 where
    c2: "choice (take 50 scored_pop) g1 = Inr (e2, g2)" "e2 \<in> set (take 50 scored_pop)" by blast
  from c1(2) c2(2) perm have p: "is_permutation N (snd e1)" "is_permutation N (snd e2)"
    by (auto dest: in_set_takeD)
  from breed_perm [OF p] obtain c g3 where
    b: "breed (snd e1) (snd e2) g2 = Inr (c, g3)" "is_permutation N c" by blast
  obtain child g' where m: "mutate c mutation_rate g3 = (child, g')"
    by (cases "mutate c mutation_rate g3")
  have "mset child = mset c" using mutate_mset [of c mutation_rate g3] m by simp
  then have "is_permutation N child" using b(2) by (rule is_permutation_mset)
  with c1(1) c2(1) b(1) m show ?thesis by (simp add: make_child_def)
qed

subsection \<open>The breeding loop\<close>

lemma breeding_loop_Inr:
  "breeding_loop scored_pop mutation_rate pop_size new_pop g = Inr (out, g') \<Longrightarrow>
     (\<exists>children. out = new_pop @ children
        \<and> (\<forall>c\<in>set children. \<exists>g1 g2. make_child scored_pop mutation_rate g1 = Inr (c, g2)))
     \<and> int (length out) = max pop_size (int (length new_pop))"
proof (induction scored_pop mutation_rate pop_size new_pop g rule: breeding_loop.induct)
  case (1 scored_pop mutation_rate pop_size new_pop g)
  show ?case
  proof (cases "int (length new_pop) < pop_size")
    case False
    with "1.prems" have "out = new_pop"
      by (subst (asm) breeding_loop.simps) simp
    with False show ?thesis by simp
  next
    case True
    with "1.prems" obtain child g1 where
      mc: "make_child scored_pop mutation_rate g = Inr (child, g1)" and
      rec: "breeding_loop scored_pop mutation_rate pop_size (new_pop @ [child]) g1 = Inr (out, g')"
      by (subst (asm) breeding_loop.simps) (auto split: sum.splits)
    from "1.IH" [OF True mc refl rec] obtain children where
      ch: "out = (new_pop @ [child]) @ children"
          "\<forall>c\<in>set children. \<exists>g1 g2. make_child scored_pop mutation_rate g1 = Inr (c, g2)"
      and len: "int (length out) = max pop_size (int (length (new_pop @ [child])))"
      by blast
    have "out = new_pop @ (child # children)" using ch(1) by simp
    moreover have "\<forall>c\<in>set (child # children).
        \<exists>g1 g2. make_child scored_pop mutation_rate g1 = Inr (c, g2)"
      using ch(2) mc by auto
    moreover have "int (length out) = max pop_size (int (length new_pop))"
      using len True by simp
    ultimately show ?thesis by blast
  qed
qed

lemma breeding_loop_total:
  assumes mc: "\<And>g. \<exists>child g'. make_child scored_pop mutation_rate g = Inr (child, g')"
  shows "\<exists>out g'. breeding_loop scored_pop mutation_rate pop_size new_pop g = Inr (out, g')"
  using mc
proof (induction scored_pop mutation_rate pop_size new_pop g rule: breeding_loop.induct)
  case (1 scored_pop mutation_rate pop_size new_pop g)
  show ?case
  proof (cases "int (length new_pop) < pop_size")
    case False
    then show ?thesis by (subst breeding_loop.simps) simp
  next
    case True
    from "1.prems" obtain child g1 where
      c: "make_child scored_pop mutation_rate g = Inr (child, g1)" by blast
    from "1.IH" [OF True c refl "1.prems"] obtain out g' where
      "breeding_loop scored_pop mutation_rate pop_size (new_pop @ [child]) g1 = Inr (out, g')"
      by blast
    with True c show ?thesis by (subst breeding_loop.simps) simp
  qed
qed

lemma breeding_loop_done:
  "pop_size \<le> int (length new_pop) \<Longrightarrow>
     breeding_loop scored_pop mutation_rate pop_size new_pop g = Inr (new_pop, g)"
  by (subst breeding_loop.simps) simp

subsection \<open>The generation step\<close>

lemma set_ranked: "set (ranked cities obstacles pop) = (\<lambda>r. (cost_of cities obstacles r, r)) ` set pop"
  by (simp add: ranked_def)

lemma length_ranked: "length (ranked cities obstacles pop) = length pop"
  by (simp add: ranked_def)

lemma generation_step_scorable:
  assumes "\<forall>r\<in>set pop. scorable cities r"
  shows "generation_step cities obstacles mutation_rate pop_size pop g =
     breeding_loop (ranked cities obstacles pop) mutation_rate pop_size
       (map snd (take 10 (ranked cities obstacles pop))) g"
  by (simp add: generation_step_def score_loop_scorable [OF assms] ranked_def Let_def)

lemma generation_step_Inr_scorable:
  assumes "generation_step cities obstacles mutation_rate pop_size pop g = Inr (out, g')"
  shows "\<forall>r\<in>set pop. scorable cities r"
proof -
  from assms obtain scored where "score_loop pop cities obstacles [] = Inr scored"
    by (cases "score_loop pop cities obstacles []") (auto simp: generation_step_def)
  then show ?thesis by (rule score_loop_Inr)
qed

lemma generation_step_length:
  assumes "generation_step cities obstacles mutation_rate pop_size pop g = Inr (out, g')"
  shows "int (length out) = max pop_size (min 10 (int (length pop)))"
proof -
  from generation_step_Inr_scorable [OF assms] have sc: "\<forall>r\<in>set pop. scorable cities r" .
  from assms have "breeding_loop (ranked cities obstacles pop) mutation_rate pop_size
       (map snd (take 10 (ranked cities obstacles pop))) g = Inr (out, g')"
    by (simp add: generation_step_scorable [OF sc])
  from breeding_loop_Inr [OF this] show ?thesis
    by (simp add: length_ranked min_def)
qed

lemma generation_step_total:
  assumes perm: "\<forall>r\<in>set pop. is_permutation (length cities) r"
      and ne: "pop \<noteq> [] \<or> pop_size \<le> min 10 (int (length pop))"
  shows "\<exists>out g'. generation_step cities obstacles mutation_rate pop_size pop g = Inr (out, g')"
proof -
  let ?sp = "ranked cities obstacles pop"
  from perm have sc: "\<forall>r\<in>set pop. scorable cities r"
    by (auto intro: is_permutation_scorable)
  have pe: "\<forall>e\<in>set ?sp. is_permutation (length cities) (snd e)"
    using perm by (auto simp: set_ranked)
  show ?thesis
  proof (cases "pop = []")
    case False
    then have "?sp \<noteq> []" using length_ranked [of cities obstacles pop] by auto
    then have "\<And>g. \<exists>child g'. make_child ?sp mutation_rate g = Inr (child, g')"
      using make_child_total [OF _ pe] by blast
    from breeding_loop_total [of ?sp mutation_rate, OF this] show ?thesis
      by (simp add: generation_step_scorable [OF sc])
  next
    case True
    with ne have "pop_size \<le> int (length (map snd (take 10 ?sp)))"
      by (simp add: length_ranked)
    from breeding_loop_done [OF this] show ?thesis
      by (simp add: generation_step_scorable [OF sc])
  qed
qed

lemma ranked_hd_least:
  assumes "pop \<noteq> []"
  shows "\<exists>r0\<in>set pop. hd (ranked cities obstacles pop) = (cost_of cities obstacles r0, r0)
           \<and> (\<forall>r\<in>set pop. cost_of cities obstacles r0 \<le> cost_of cities obstacles r)"
proof -
  let ?sp = "ranked cities obstacles pop"
  from assms have ne: "?sp \<noteq> []" using length_ranked [of cities obstacles pop] by auto
  then obtain e rest where sp: "?sp = e # rest" by (cases ?sp) auto
  have "e \<in> set ?sp" using sp by simp
  then obtain r0 where r0: "r0 \<in> set pop" "e = (cost_of cities obstacles r0, r0)"
    by (auto simp: set_ranked)
  have srt: "sorted (map fst ?sp)" by (simp add: ranked_def)
  have "\<forall>r\<in>set pop. cost_of cities obstacles r0 \<le> cost_of cities obstacles r"
  proof
    fix r assume "r \<in> set pop"
    then have "(cost_of cities obstacles r, r) \<in> set ?sp" by (simp add: set_ranked)
    then have "(cost_of cities obstacles r, r) = e \<or> (cost_of cities obstacles r, r) \<in> set rest"
      using sp by simp
    then show "cost_of cities obstacles r0 \<le> cost_of cities obstacles r"
    proof
      assume "(cost_of cities obstacles r, r) = e"
      with r0 show ?thesis by simp
    next
      assume "(cost_of cities obstacles r, r) \<in> set rest"
      then have "fst e \<le> fst (cost_of cities obstacles r, r)"
        using srt unfolding sp by (auto simp del: fst_conv)
      with r0 show ?thesis by simp
    qed
  qed
  with r0 sp show ?thesis by auto
qed

lemma generation_step_keeps_best:
  assumes step: "generation_step cities obstacles mutation_rate pop_size pop g = Inr (out, g')"
      and ne: "pop \<noteq> []"
  shows "(\<forall>r\<in>set out. scorable cities r)
       \<and> (\<exists>r0\<in>set out. \<forall>r\<in>set pop. cost_of cities obstacles r0 \<le> cost_of cities obstacles r)"
proof -
  let ?sp = "ranked cities obstacles pop"
  let ?elite = "map snd (take 10 ?sp)"
  from generation_step_Inr_scorable [OF step] have sc: "\<forall>r\<in>set pop. scorable cities r" .
  from step have "breeding_loop ?sp mutation_rate pop_size ?elite g = Inr (out, g')"
    by (simp add: generation_step_scorable [OF sc])
  from breeding_loop_Inr [OF this] obtain children where
    out: "out = ?elite @ children" and
    ch: "\<forall>c\<in>set children. \<exists>g1 g2. make_child ?sp mutation_rate g1 = Inr (c, g2)"
    by blast
  have snd_sp: "\<forall>e\<in>set ?sp. snd e \<in> set pop" by (auto simp: set_ranked)
  have el: "\<forall>r\<in>set ?elite. r \<in> set pop"
    using snd_sp by (auto dest: in_set_takeD)
  have "\<forall>c\<in>set children. scorable cities c"
  proof
    fix c assume "c \<in> set children"
    with ch obtain g1 g2 where "make_child ?sp mutation_rate g1 = Inr (c, g2)" by blast
    from make_child_Inr [OF this] obtain e1 e2 where
      e: "e1 \<in> set ?sp" "e2 \<in> set ?sp" "set c \<subseteq> set (snd e1) \<union> set (snd e2)" by blast
    from e(1,2) snd_sp sc have "scorable cities (snd e1)" "scorable cities (snd e2)" by auto
    with e(3) show "scorable cities c" by (rule scorable_subset)
  qed
  with el sc out have all: "\<forall>r\<in>set out. scorable cities r" by auto
  from ranked_hd_least [OF ne, of cities obstacles] obtain r0 where
    r0: "hd ?sp = (cost_of cities obstacles r0, r0)"
        "\<forall>r\<in>set pop. cost_of cities obstacles r0 \<le> cost_of cities obstacles r" by blast
  from ne have "?sp \<noteq> []" using length_ranked [of cities obstacles pop] by auto
  then have "hd ?sp \<in> set (take 10 ?sp)" by (cases ?sp) auto
  with r0(1) have "r0 \<in> set ?elite" by force
  with out have "r0 \<in> set out" by simp
  with all r0(2) show ?thesis by blast
qed

subsection \<open>Evaluation on the concrete inputs\<close>

lemma distance_same_y:
  "point_y a = point_y b \<Longrightarrow> calculate_distance a b = \<bar>point_x a - point_x b\<bar>"
  by (simp add: calculate_distance_def)

lemma random_index_Cons:
  "random_index n (rng_of_list (u # us)) =
     (nat \<lfloor>(if 0 \<le> u \<and> u < 1 then u else 0) * real n\<rfloor>, rng_of_list us)"
  by (simp add: random_index_def rng_of_list_Cons)

lemma random_index_Nil: "random_index n (rng_of_list []) = (0, rng_of_list [])"
  by (simp add: random_index_def rng_of_list_Nil)

lemma cost_bad: "get_route_distance bad_route line_cities [] = Inr 8"
  by (simp add: get_route_distance_def bad_route_def line_cities_def py_get_def upt_rec distance_same_y)

lemma cost_good: "get_route_distance good_route line_cities [] = Inr 6"
  by (simp add: get_route_distance_def good_route_def line_cities_def py_get_def upt_rec distance_same_y)

lemma breed_bad: "breed bad_route bad_route (rng_of_list (0 # 0 # us)) = Inr (bad_route, rng_of_list us)"
  by (simp add: breed_def random_index_Cons bad_route_def breed_at_def upt_rec scan_parent2.simps)

lemma mutate_bad: "mutate bad_route (1/2) (rng_of_list [9/10, 0, 1/2, 9/10, 9/10]) = (good_route, rng_of_list [])"
  by (simp add: mutate_def bad_route_def good_route_def upt_rec rng_of_list_Cons random_index_Cons)

lemma choice_Cons:
  "seq \<noteq> [] \<Longrightarrow> choice seq (rng_of_list (u # us)) =
     Inr (seq ! nat \<lfloor>(if 0 \<le> u \<and> u < 1 then u else 0) * real (length seq)\<rfloor>, rng_of_list us)"
  by (simp add: choice_def choice_index_def randbelow_def random_index_Cons)

lemma score_bad: "score_loop (replicate 11 bad_route) line_cities [] [] = Inr (replicate 11 (8, bad_route))"
  by (simp add: numeral_eq_Suc cost_bad)

lemma sort_bad: "sort_key fst (replicate 11 (8::real, bad_route)) = replicate 11 (8, bad_route)"
  by (simp add: numeral_eq_Suc)

lemma make_child_bad:
  "make_child (replicate 11 (8, bad_route)) (1/2) stale_best_rng = Inr (good_route, rng_of_list [])"
  by (simp add: make_child_def stale_best_rng_def choice_Cons breed_bad mutate_bad)

lemma step_bad:
  "generation_step line_cities [] (1/2) 11 (replicate 11 bad_route) stale_best_rng =
     Inr (bad_route # replicate 9 bad_route @ [good_route], rng_of_list [])"
  unfolding generation_step_def score_bad sum.case Let_def sort_bad
  apply (subst breeding_loop.simps)
  apply (simp add: make_child_bad)
  apply (subst breeding_loop.simps)
  apply (simp add: numeral_eq_Suc)
  done

lemma length_line_cities: "length line_cities = 4"
  by (simp add: line_cities_def)

lemma score_wide:
  "score_loop wide_pool_population line_cities [] [] =
     Inr (replicate 6 (8, bad_route) @ replicate 6 (6, good_route))"
  by (simp add: wide_pool_population_def numeral_eq_Suc cost_bad cost_good)

lemma sort_wide:
  "sort_key fst (replicate 6 (8::real, bad_route) @ replicate 6 (6, good_route)) = wide_pool_ranked"
  by (simp add: wide_pool_ranked_def numeral_eq_Suc)

lemma evolve_best_is_first:
  assumes "evolve req g = Inr (resp, g')" and "2 \<le> length (req_cities req)"
  shows "resp_population resp \<noteq> [] \<and> resp_best_route resp = hd (resp_population resp)
       \<and> get_route_distance (resp_best_route resp) (req_cities req) (req_obstacles req)
           = Inr (resp_best_distance resp)"
  using assms
  by (auto simp: evolve_def Let_def split: sum.splits list.splits prod.splits if_splits)

lemma first_route_not_best_without_generations:
  "evolve unsorted_request g =
     Inr (\<lparr>resp_population = [bad_route, good_route], resp_best_route = bad_route,
           resp_best_distance = 8, resp_generation = 0\<rparr>, g)
   \<and> get_route_distance good_route line_cities [] = Inr 6"
  by (simp add: evolve_def unsorted_request_def length_line_cities cost_bad cost_good)

lemma perm_bad: "is_permutation 4 bad_route"
  by (simp add: bad_route_def is_permutation_def upt_rec)

lemma perm_good: "is_permutation 4 good_route"
  by (simp add: good_route_def is_permutation_def upt_rec)

section \<open>The claims\<close>

text \<open>
  C1: every route produced by \<^verbatim>\<open>create_initial_population\<close>, by \<^verbatim>\<open>breed\<close> from two
  parents that are permutations of the indices below \<open>N\<close>, and by \<^verbatim>\<open>mutate\<close> from such
  a permutation, is a permutation of the indices below \<open>N\<close>: every index appears exactly
  once. This holds for every outcome of the random draws, and \<^verbatim>\<open>breed\<close> returns.
\<close>

theorem permutation_invariant:
  "(\<forall>r\<in>set (fst (create_initial_population pop_size N g)). is_permutation N r)
   \<and> (is_permutation N parent1 \<and> is_permutation N parent2 \<longrightarrow>
        (\<exists>child g'. breed parent1 parent2 g = Inr (child, g') \<and> is_permutation N child))
   \<and> (is_permutation N route \<longrightarrow> is_permutation N (fst (mutate route mutation_rate g)))"
proof (intro conjI impI)
  show "\<forall>r\<in>set (fst (create_initial_population pop_size N g)). is_permutation N r"
    by (rule create_initial_population_perm)
next
  assume "is_permutation N parent1 \<and> is_permutation N parent2"
  then show "\<exists>child g'. breed parent1 parent2 g = Inr (child, g') \<and> is_permutation N child"
    using breed_perm [of N parent1 parent2 g] by blast
next
  assume "is_permutation N route"
  with mutate_mset show "is_permutation N (fst (mutate route mutation_rate g))"
    by (rule is_permutation_mset)
qed

theorem permutation_invariant_witness:
  "is_permutation 4 good_route \<and> is_permutation 4 bad_route
   \<and> (\<exists>child g'. breed good_route bad_route stale_best_rng = Inr (child, g')
        \<and> is_permutation 4 child)
   \<and> is_permutation 4 (fst (mutate good_route (1/2) stale_best_rng))
   \<and> list_all (is_permutation 4) (fst (create_initial_population 3 4 stale_best_rng))
   \<and> length (fst (create_initial_population 3 4 stale_best_rng)) = 3"
  using permutation_invariant [of 3 4 stale_best_rng good_route bad_route good_route "1/2"]
    perm_good perm_bad create_initial_population_length [of 3 4 stale_best_rng]
  by (simp add: list_all_iff)

text \<open>
  C2: both parents of every child are drawn from the first \<open>pop_size div 2\<close> entries of the
  ranked population. The code draws them from \<^verbatim>\<open>scored_pop[:50]\<close>, whatever
  \<^verbatim>\<open>pop_size\<close> is. With \<^verbatim>\<open>pop_size\<close> 12 and the twelve routes of
  \<open>wide_pool_population\<close>, the scored population is ranked to \<open>wide_pool_ranked\<close>, and a
  first draw of 0.95 makes \<^verbatim>\<open>random.choice\<close> read position 11, which is not below 6.
  What the code guarantees is \<open>parent_indices_bound\<close>.
\<close>

theorem parents_not_confined_to_top_half:
  "score_loop wide_pool_population line_cities [] [] =
     Inr (replicate 6 (8, bad_route) @ replicate 6 (6, good_route))
   \<and> sort_key fst (replicate 6 (8::real, bad_route) @ replicate 6 (6, good_route)) = wide_pool_ranked
   \<and> parent_indices wide_pool_ranked (rng_of_list [19/20, 0]) = Inr ((11, 0), rng_of_list [])
   \<and> \<not> (11::int) < 12 div 2"
proof -
  have ne: "wide_pool_ranked \<noteq> []" by (simp add: wide_pool_ranked_def)
  have len: "length wide_pool_ranked = 12" by (simp add: wide_pool_ranked_def)
  have "parent_indices wide_pool_ranked (rng_of_list [19/20, 0]) = Inr ((11, 0), rng_of_list [])"
    by (simp add: parent_indices_def choice_index_def randbelow_def random_index_Cons ne len)
  then show ?thesis using score_wide sort_wide by simp
qed

text \<open>
  C3: after the generation loop the first route of the final population has the least cost
  of that population, and \<^verbatim>\<open>best_distance\<close> is its recomputed cost. The second half
  holds (\<open>evolve_best_is_first\<close>). The first half fails: the children of the last
  generation are appended after the sort and are never scored. On \<open>stale_best_request\<close>
  the only child is \<open>good_route\<close>, of cost 6, while the reported best route is
  \<open>bad_route\<close>, of cost 8. With no generation the input population is returned as it
  is, and its first route need not be the best either
  (\<open>first_route_not_best_without_generations\<close>).
\<close>

theorem first_route_not_best_after_breeding:
  "evolve stale_best_request stale_best_rng =
     Inr (\<lparr>resp_population = bad_route # replicate 9 bad_route @ [good_route],
           resp_best_route = bad_route, resp_best_distance = 8, resp_generation = 0\<rparr>,
          rng_of_list [])
   \<and> get_route_distance good_route line_cities [] = Inr 6"
proof -
  have ne: "replicate 11 bad_route \<noteq> []" by simp
  have loop: "generation_loop (nat 1) line_cities [] (1/2) 11 (replicate 11 bad_route, stale_best_rng)
      = Inr (bad_route # replicate 9 bad_route @ [good_route], rng_of_list [])"
    by (simp add: step_bad)
  show ?thesis
    unfolding evolve_def stale_best_request_def
    by (simp only: EvolveRequest.simps length_line_cities ne loop cost_bad cost_good
        Let_def prod.case sum.case list.case if_False refl simp_thms)
      simp
qed

text \<open>
  C4: a generation step with \<^verbatim>\<open>pop_size\<close> at least 10 and a non-empty input population
  returns exactly \<^verbatim>\<open>pop_size\<close> routes. Every population that the step returns has this
  size; and the step does return when the input routes are permutations of the city
  indices.
\<close>

theorem generation_step_population_size:
  assumes "10 \<le> pop_size" and "current_pop \<noteq> []"
  shows "(\<forall>out g'. generation_step cities obstacles mutation_rate pop_size current_pop g = Inr (out, g')
            \<longrightarrow> int (length out) = pop_size)
       \<and> ((\<forall>r\<in>set current_pop. is_permutation (length cities) r)
            \<longrightarrow> (\<exists>out g'. generation_step cities obstacles mutation_rate pop_size current_pop g
                     = Inr (out, g')))"
proof (intro conjI allI impI)
  fix out g'
  assume "generation_step cities obstacles mutation_rate pop_size current_pop g = Inr (out, g')"
  from generation_step_length [OF this] assms(1) show "int (length out) = pop_size" by simp
next
  assume "\<forall>r\<in>set current_pop. is_permutation (length cities) r"
  with assms(2) show "\<exists>out g'. generation_step cities obstacles mutation_rate pop_size current_pop g
      = Inr (out, g')"
    by (intro generation_step_total) simp_all
qed

theorem generation_step_population_size_witness:
  "(10::int) \<le> 25 \<and> replicate 11 bad_route \<noteq> []
   \<and> list_all (is_permutation (length line_cities)) (replicate 11 bad_route)
   \<and> (\<exists>out g'. generation_step line_cities line_obstacle (1/2) 25 (replicate 11 bad_route)
                  stale_best_rng = Inr (out, g') \<and> int (length out) = 25)"
proof -
  have h1: "(10::int) \<le> 25" by simp
  have h2: "replicate 11 bad_route \<noteq> []" by simp
  have h3: "\<forall>r\<in>set (replicate 11 bad_route). is_permutation (length line_cities) r"
    by (simp add: length_line_cities perm_bad)
  from generation_step_population_size [OF h1 h2, of line_cities line_obstacle "1/2" stale_best_rng] h3
  have "\<exists>out g'. generation_step line_cities line_obstacle (1/2) 25 (replicate 11 bad_route)
                  stale_best_rng = Inr (out, g') \<and> int (length out) = 25"
    by blast
  with h1 h2 h3 show ?thesis by (simp add: list_all_iff)
qed

text \<open>
  C5: for a non-empty route whose entries are indices of the city list,
  \<^verbatim>\<open>get_route_distance\<close> returns the sum, over all consecutive pairs and the edge from
  the last city back to the first, of the Euclidean distances, plus 10000 for every pair
  of an edge and an obstacle that intersect; the result is not negative.
\<close>

theorem route_cost_is_tour_length_plus_penalties:
  assumes "route \<noteq> []"
      and "\<forall>v\<in>set route. 0 \<le> v \<and> v < int (length cities)"
  shows "get_route_distance route cities obstacles = Inr (route_cost_spec route cities obstacles)
         \<and> 0 \<le> route_cost_spec route cities obstacles"
  using get_route_distance_spec [OF assms(2)] route_cost_spec_nonneg by simp

theorem route_cost_is_tour_length_plus_penalties_witness:
  "good_route \<noteq> [] \<and> list_all (\<lambda>v. 0 \<le> v \<and> v < int (length line_cities)) good_route
   \<and> get_route_distance good_route line_cities line_obstacle
       = Inr (route_cost_spec good_route line_cities line_obstacle)
   \<and> 0 \<le> route_cost_spec good_route line_cities line_obstacle
   \<and> route_cost_spec good_route line_cities line_obstacle = 20006"
proof -
  have h1: "good_route \<noteq> []" by (simp add: good_route_def)
  have h2: "\<forall>v\<in>set good_route. 0 \<le> v \<and> v < int (length line_cities)"
    by (simp add: good_route_def line_cities_def)
  have v: "get_route_distance good_route line_cities line_obstacle = Inr 20006"
    by (simp add: get_route_distance_def good_route_def line_cities_def line_obstacle_def
        py_get_def upt_rec distance_same_y line_intersects_circle_def power2_eq_square)
  note t = route_cost_is_tour_length_plus_penalties [OF h1 h2, of line_obstacle]
  from t v have "route_cost_spec good_route line_cities line_obstacle = 20006" by simp
  with t h1 h2 show ?thesis by (simp add: list_all_iff)
qed

text \<open>
  C6: with fewer than two cities \<^verbatim>\<open>evolve\<close> returns an empty population, an empty best
  route, best distance 0 and generation 0. The random source is returned as it was given,
  so no population was initialised and nothing was bred; and the result is the same for
  every population of the request, also one that could not be scored.
\<close>

theorem evolve_degenerate_input:
  "length (req_cities req) < 2 \<Longrightarrow>
     evolve req g = Inr (\<lparr>resp_population = [], resp_best_route = [], resp_best_distance = 0,
                           resp_generation = 0\<rparr>, g)"
  by (simp add: evolve_def empty_response_def)

theorem evolve_degenerate_input_witness:
  "length (req_cities single_city_request) < 2
   \<and> evolve single_city_request stale_best_rng
       = Inr (\<lparr>resp_population = [], resp_best_route = [], resp_best_distance = 0,
               resp_generation = 0\<rparr>, stale_best_rng)
   \<and> get_route_distance [5, 5] (req_cities single_city_request) [] = Inl IndexError"
proof -
  have h: "length (req_cities single_city_request) < 2"
    by (simp add: single_city_request_def)
  have "get_route_distance [5, 5] (req_cities single_city_request) [] = Inl IndexError"
    by (simp add: single_city_request_def get_route_distance_def py_get_def upt_rec)
  with h evolve_degenerate_input [OF h, of stale_best_rng] show ?thesis by simp
qed

text \<open>
  C7: for a generation step on a population of at least 10 routes, the least cost of the
  output population is at most the least cost of the input population, for every outcome
  of the random draws. Whenever the step returns, both least costs exist and are so
  ordered; and the step does return when the input routes are permutations of the city
  indices.
\<close>

theorem elitism_non_regression:
  assumes "10 \<le> length current_pop"
  shows "(\<forall>out g'. generation_step cities obstacles mutation_rate pop_size current_pop g = Inr (out, g')
            \<longrightarrow> (\<exists>c_out c_in. min_cost cities obstacles out = Inr c_out
                    \<and> min_cost cities obstacles current_pop = Inr c_in \<and> c_out \<le> c_in))
       \<and> ((\<forall>r\<in>set current_pop. is_permutation (length cities) r)
            \<longrightarrow> (\<exists>out g'. generation_step cities obstacles mutation_rate pop_size current_pop g
                     = Inr (out, g')))"
proof (intro conjI allI impI)
  fix out g'
  assume step: "generation_step cities obstacles mutation_rate pop_size current_pop g = Inr (out, g')"
  from assms have ne: "current_pop \<noteq> []" by auto
  from generation_step_Inr_scorable [OF step]
  have sc_in: "\<forall>r\<in>set current_pop. scorable cities r" .
  from generation_step_keeps_best [OF step ne] obtain r0 where
    sc_out: "\<forall>r\<in>set out. scorable cities r" and
    r0: "r0 \<in> set out" "\<forall>r\<in>set current_pop. cost_of cities obstacles r0 \<le> cost_of cities obstacles r"
    by blast
  let ?c = "cost_of cities obstacles"
  have "Min (?c ` set out) \<le> ?c r0" using r0(1) by simp
  also have "?c r0 \<le> Min (?c ` set current_pop)" using r0(2) ne by simp
  finally have "Min (?c ` set out) \<le> Min (?c ` set current_pop)" .
  then show "\<exists>c_out c_in. min_cost cities obstacles out = Inr c_out
      \<and> min_cost cities obstacles current_pop = Inr c_in \<and> c_out \<le> c_in"
    by (simp add: min_cost_scorable [OF sc_out] min_cost_scorable [OF sc_in])
next
  assume "\<forall>r\<in>set current_pop. is_permutation (length cities) r"
  moreover from assms have "current_pop \<noteq> []" by auto
  ultimately show "\<exists>out g'. generation_step cities obstacles mutation_rate pop_size current_pop g
      = Inr (out, g')"
    by (intro generation_step_total) simp_all
qed

theorem elitism_non_regression_witness:
  "10 \<le> length (replicate 11 bad_route)
   \<and> list_all (is_permutation (length line_cities)) (replicate 11 bad_route)
   \<and> (\<exists>out g' c_out c_in.
         generation_step line_cities [] (1/2) 11 (replicate 11 bad_route) stale_best_rng = Inr (out, g')
         \<and> min_cost line_cities [] out = Inr c_out
         \<and> min_cost line_cities [] (replicate 11 bad_route) = Inr c_in \<and> c_out \<le> c_in)"
proof -
  have h1: "10 \<le> length (replicate 11 bad_route)" by simp
  have h3: "\<forall>r\<in>set (replicate 11 bad_route). is_permutation (length line_cities) r"
    by (simp add: length_line_cities perm_bad)
  from elitism_non_regression [OF h1, of line_cities "[]" "1/2" 11 stale_best_rng] h3
  have "\<exists>out g' c_out c_in.
         generation_step line_cities [] (1/2) 11 (replicate 11 bad_route) stale_best_rng = Inr (out, g')
         \<and> min_cost line_cities [] out = Inr c_out
         \<and> min_cost line_cities [] (replicate 11 bad_route) = Inr c_in \<and> c_out \<le> c_in"
    by blast
  with h1 h3 show ?thesis by (simp add: list_all_iff)
qed

text \<open>
  C8: for every point \<open>p\<close> and every obstacle, \<open>line_intersects_circle p p obstacle\<close> is
  false: a segment of length zero never intersects a circle, whatever its centre and radius.
\<close>

theorem zero_length_segment_never_intersects:
  "line_intersects_circle p p circle = False"
  by (simp add: line_intersects_circle_def)

text \<open>
  C9: for two parents that are permutations of the indices below \<open>N\<close>, the second loop of
  \<^verbatim>\<open>breed\<close> never reads past the end of \<^verbatim>\<open>parent2\<close>: \<^verbatim>\<open>breed\<close> returns a child for
  every outcome of its two draws, and so does its body for all cut points up to \<open>N\<close>, with
  every slot of the child filled. The scan is a total function, so it terminates.
\<close>

theorem breed_total_on_permutations:
  assumes "is_permutation N parent1" and "is_permutation N parent2"
  shows "(\<exists>child g'. breed parent1 parent2 g = Inr (child, g'))
       \<and> (\<forall>start end'. end' \<le> N \<longrightarrow>
            (\<exists>child. breed_at start end' parent1 parent2 = Inr child \<and> None \<notin> set child))"
proof (intro conjI allI impI)
  from breed_perm [OF assms] show "\<exists>child g'. breed parent1 parent2 g = Inr (child, g')"
    by blast
next
  fix start end' assume "end' \<le> N"
  from breed_at_perm [OF assms this, of start] obtain child where
    c: "breed_at start end' parent1 parent2 = Inr child" by blast
  from breed_at_Inr [OF c] c
  show "\<exists>child. breed_at start end' parent1 parent2 = Inr child \<and> None \<notin> set child"
    by blast
qed

theorem breed_total_on_permutations_witness:
  "is_permutation 4 good_route \<and> is_permutation 4 bad_route
   \<and> (\<exists>child g'. breed good_route bad_route (rng_of_list [1/4, 3/4]) = Inr (child, g'))
   \<and> (\<exists>child. breed_at 1 3 good_route bad_route = Inr child \<and> None \<notin> set child)
   \<and> breed_at 1 3 good_route bad_route = Inr [Some 0, Some 1, Some 2, Some 3]"
proof -
  note t = breed_total_on_permutations [OF perm_good perm_bad, of "rng_of_list [1/4, 3/4]"]
  have le: "(3::nat) \<le> 4" by simp
  from t le have "\<exists>child. breed_at 1 3 good_route bad_route = Inr child \<and> None \<notin> set child"
    by blast
  moreover have "breed_at 1 3 good_route bad_route = Inr [Some 0, Some 1, Some 2, Some 3]"
    by (simp add: breed_at_def good_route_def bad_route_def upt_rec scan_parent2.simps)
  ultimately show ?thesis using t perm_good perm_bad by blast
qed

text \<open>
  C10: when the input population has more than \<^verbatim>\<open>pop_size\<close> routes and \<^verbatim>\<open>pop_size\<close> is
  below 10, the population that a generation step returns has
  \<open>max pop_size (min 10 (input size))\<close> routes, which is more than \<^verbatim>\<open>pop_size\<close>; and the
  step does return when the input routes are permutations of the city indices.
\<close>

theorem generation_step_oversized_population:
  assumes "pop_size < int (length current_pop)" and "pop_size < 10"
  shows "(\<forall>out g'. generation_step cities obstacles mutation_rate pop_size current_pop g = Inr (out, g')
            \<longrightarrow> int (length out) = max pop_size (min 10 (int (length current_pop)))
                \<and> pop_size < int (length out))
       \<and> ((\<forall>r\<in>set current_pop. is_permutation (length cities) r)
            \<longrightarrow> (\<exists>out g'. generation_step cities obstacles mutation_rate pop_size current_pop g
                     = Inr (out, g')))"
proof (intro conjI allI impI)
  fix out g'
  assume "generation_step cities obstacles mutation_rate pop_size current_pop g = Inr (out, g')"
  from generation_step_length [OF this]
  show "int (length out) = max pop_size (min 10 (int (length current_pop)))" .
  with assms show "pop_size < int (length out)" by simp
next
  assume "\<forall>r\<in>set current_pop. is_permutation (length cities) r"
  with assms show "\<exists>out g'. generation_step cities obstacles mutation_rate pop_size current_pop g
      = Inr (out, g')"
    by (intro generation_step_total) simp_all
qed

theorem generation_step_oversized_population_witness:
  "(3::int) < int (length (replicate 11 bad_route)) \<and> (3::int) < 10
   \<and> list_all (is_permutation (length line_cities)) (replicate 11 bad_route)
   \<and> (\<exists>out g'. generation_step line_cities [] (1/2) 3 (replicate 11 bad_route) stale_best_rng
                  = Inr (out, g') \<and> int (length out) = 10 \<and> (3::int) < int (length out))"
proof -
  have h1: "(3::int) < int (length (replicate 11 bad_route))" by simp
  have h2: "(3::int) < 10" by simp
  have h3: "\<forall>r\<in>set (replicate 11 bad_route). is_permutation (length line_cities) r"
    by (simp add: length_line_cities perm_bad)
  from generation_step_oversized_population [OF h1 h2, of line_cities "[]" "1/2" stale_best_rng] h3
  have "\<exists>out g'. generation_step line_cities [] (1/2) 3 (replicate 11 bad_route) stale_best_rng
                  = Inr (out, g') \<and> int (length out) = 10 \<and> (3::int) < int (length out)"
    by fastforce
  with h1 h2 h3 show ?thesis by (simp add: list_all_iff)
qed

end
